theory Spec2Isabelle
  imports Complex_Main "HOL-Library.Word" "HOL-Library.AList" "HOL-Library.Log_Nat"
begin

section \<open>Machine numbers\<close>

text \<open>
  Go's \<open>uint\<close>, \<open>int\<close>, \<open>uint64\<close> and \<open>time.Duration\<close> (an \<open>int64\<close> of nanoseconds)
  are 64-bit words on the 64-bit platforms the package is built for; \<open>int32\<close> is a
  32-bit word. Arithmetic on them wraps, \<open>unat\<close> reads a word as unsigned and \<open>sint\<close>
  as two's complement.

  A finite \<open>float32\<close> is the real number it denotes. A conversion or a division rounds
  its exact result to the nearest number with a 24-bit significand, ties to even
  (IEEE 754 binary32): with \<open>e\<close> the binary exponent of \<open>x\<close>, \<open>2^e \<le> |x| < 2^(e+1)\<close>,
  the float32 numbers around \<open>x\<close> are the multiples of \<open>2^(e-23)\<close>; below \<open>2^-126\<close> the
  spacing is that of the subnormal numbers.
  Results beyond the largest float32 (infinities) do not arise from the conversions of
  64-bit integers and their quotients by \<open>float32(time.Second)\<close>, and are not modelled.
\<close>

definition pow2 :: "int \<Rightarrow> real" where
  "pow2 e = (if 0 \<le> e then 2 ^ nat e else 1 / 2 ^ nat (- e))"

definition round_half_even :: "real \<Rightarrow> int" where
  "round_half_even x =
     (let n = \<lfloor>x\<rfloor>; r = x - of_int n
      in if r < 1 / 2 then n else if 1 / 2 < r then n + 1 else if even n then n else n + 1)"

definition float32_exponent :: "real \<Rightarrow> int" where
  "float32_exponent x =
     (if 1 \<le> \<bar>x\<bar> then bitlen \<lfloor>\<bar>x\<bar>\<rfloor> - 1
      else if x = 0 then - 126
      else max (- 126) (- bitlen (\<lceil>1 / \<bar>x\<bar>\<rceil> - 1)))"

definition float32_round :: "real \<Rightarrow> real" where
  "float32_round x =
     (let q = pow2 (float32_exponent x - 23) in of_int (round_half_even (x / q)) * q)"

definition float32_of_int :: "int \<Rightarrow> real" where
  "float32_of_int i = float32_round (of_int i)"

definition float32_div :: "real \<Rightarrow> real \<Rightarrow> real" where
  "float32_div a b = float32_round (a / b)"

definition Second :: "64 word" where
  "Second = 1000000000"

section \<open>The standard library's images\<close>

text \<open>
  \<open>image.Rect\<close>, \<open>image.NewRGBA\<close> and the \<open>image.RGBA\<close> struct belong to Go's standard
  library. \<open>image.Rect\<close> swaps the coordinates where needed so that the rectangle is
  well-formed; \<open>image.NewRGBA\<close> panics when \<open>4 * Dx * Dy\<close> does not fit a non-negative
  \<open>int\<close>, and otherwise allocates a zeroed pixel slice of that length with a stride of
  \<open>4 * Dx\<close>: rows follow each other, four bytes R, G, B, A per pixel.
\<close>

datatype panic = IndexOutOfRange | HugeDimensions

record Point =
  X :: "64 word"
  Y :: "64 word"

record Rectangle =
  Min_pt :: Point
  Max_pt :: Point

record RGBA =
  Pix :: "8 word list"
  Stride :: "64 word"
  Rect :: Rectangle

definition image_Rect :: "64 word \<Rightarrow> 64 word \<Rightarrow> 64 word \<Rightarrow> 64 word \<Rightarrow> Rectangle" where
  "image_Rect x0 y0 x1 y1 =
     (let (xa, xb) = (if sint x1 < sint x0 then (x1, x0) else (x0, x1));
          (ya, yb) = (if sint y1 < sint y0 then (y1, y0) else (y0, y1))
      in \<lparr>Min_pt = \<lparr>X = xa, Y = ya\<rparr>, Max_pt = \<lparr>X = xb, Y = yb\<rparr>\<rparr>)"

definition Dx :: "Rectangle \<Rightarrow> 64 word" where
  "Dx r = X (Max_pt r) - X (Min_pt r)"

definition Dy :: "Rectangle \<Rightarrow> 64 word" where
  "Dy r = Y (Max_pt r) - Y (Min_pt r)"

definition image_NewRGBA :: "Rectangle \<Rightarrow> panic + RGBA" where
  "image_NewRGBA r =
     (if sint (Dx r) < 0 \<or> sint (Dy r) < 0 \<or> 2 ^ 63 \<le> 4 * unat (Dx r) * unat (Dy r)
      then Inl HugeDimensions
      else Inr \<lparr>Pix = replicate (4 * unat (Dx r) * unat (Dy r)) 0, Stride = 4 * Dx r, Rect = r\<rparr>)"

section \<open>The graphics library and the Go heap\<close>

text \<open>
  The calls of the \<open>glUniform\<close> family a setter can make. The program's uniform state
  keeps, for each location, the last call made there (location \<open>-1\<close> is ignored by
  OpenGL).
\<close>

datatype uniform_call =
    Uniform1f "32 word" real
  | Uniform2f "32 word" real real
  | Uniform3f "32 word" real real real
  | Uniform4f "32 word" real real real real
  | Uniform1i "32 word" "32 word"

fun location :: "uniform_call \<Rightarrow> 32 word" where
  "location (Uniform1f l _) = l"
| "location (Uniform2f l _ _) = l"
| "location (Uniform3f l _ _ _) = l"
| "location (Uniform4f l _ _ _ _) = l"
| "location (Uniform1i l _) = l"

text \<open>
  What the program does, in the order it happens: the OpenGL calls of the frame engine
  and the two channel operations of \<open>Animate\<close>. A draw is logged with the uniform state
  it runs with, a transfer and a readback with the ring slot whose buffer is bound to
  \<open>PIXEL_PACK_BUFFER\<close> at that moment.
\<close>

datatype event =
    GL_Uniform uniform_call
  | GL_DrawArrays "32 word \<Rightarrow> uniform_call option"
  | GL_BindBuffer nat
  | GL_ReadPixels nat
  | GL_GetBufferSubData nat int
  | Send RGBA
  | RecvCancel

text \<open>
  A uniform setter is a Go closure \<open>func(int32)\<close>. Its effect is the list of uniform
  calls it makes for the location it is given; a closure reads the variables it
  captured when it is called, so it is a function of the current values of the escaped
  \<open>time.Duration\<close> variables too. A Go map is a reference to a table: the tables live
  in the heap, at their references, and a \<open>nil\<close> map is \<open>None\<close>. A table is the
  association list of its entries, with one entry for a key; an assignment \<open>m[k] = v\<close>
  replaces the entry of \<open>k\<close> where it stands or adds one. Go leaves the order in which a
  \<open>range\<close> visits the entries open: here it is the order of the list, and what is
  proved holds for every list.
\<close>

type_synonym setter = "(nat \<Rightarrow> 64 word) \<Rightarrow> 32 word \<Rightarrow> uniform_call list"

type_synonym uniform_values = "(string \<times> setter) list"

record world =
  durations :: "nat \<Rightarrow> 64 word"
  maps :: "nat \<Rightarrow> uniform_values"
  next_ref :: nat
  uniform_store :: "32 word \<Rightarrow> uniform_call option"
  framebuffer :: "8 word list"
  buffers :: "nat \<Rightarrow> 8 word list"
  pack_binding :: nat
  events :: "event list"

text \<open>
  Modelled from the spec: the \<open>Uniform\<close> struct, declared in a file of the package
  that is not under src/; the spec gives a uniform's metadata as its type and its
  location, and \<open>drawImage\<close> reads \<open>u.Location\<close>.
\<close>

record Uniform =
  Type :: "32 word"
  Location :: "32 word"

text \<open>
  The \<open>Shader\<close> struct. The linked program is represented by what it computes: the RGBA
  bytes of the render target as a function of the uniform state at the draw. The three
  pixel buffer objects \<open>pbos\<close> are addressed by their index in the ring.
\<close>

record Shader =
  w :: "64 word"
  h :: "64 word"
  uniforms :: "string \<rightharpoonup> Uniform"
  program :: "(32 word \<Rightarrow> uniform_call option) \<Rightarrow> 8 word list"

definition len_pbos :: nat where
  "len_pbos = 3"

definition log_event :: "event \<Rightarrow> world \<Rightarrow> world" where
  "log_event e wd = wd\<lparr>events := events wd @ [e]\<rparr>"

definition gl_Uniform :: "uniform_call \<Rightarrow> world \<Rightarrow> world" where
  "gl_Uniform c wd =
     log_event (GL_Uniform c)
       (if location c = - 1 then wd
        else wd\<lparr>uniform_store := (uniform_store wd)(location c \<mapsto> c)\<rparr>)"

fun gl_Uniforms :: "uniform_call list \<Rightarrow> world \<Rightarrow> world" where
  "gl_Uniforms [] wd = wd"
| "gl_Uniforms (c # cs) wd = gl_Uniforms cs (gl_Uniform c wd)"

definition gl_DrawArrays :: "Shader \<Rightarrow> world \<Rightarrow> world" where
  "gl_DrawArrays sh wd =
     log_event (GL_DrawArrays (uniform_store wd))
       (wd\<lparr>framebuffer := program sh (uniform_store wd)\<rparr>)"

definition gl_BindBuffer :: "nat \<Rightarrow> world \<Rightarrow> world" where
  "gl_BindBuffer i wd = log_event (GL_BindBuffer i) (wd\<lparr>pack_binding := i\<rparr>)"

definition gl_ReadPixels :: "world \<Rightarrow> world" where
  "gl_ReadPixels wd =
     log_event (GL_ReadPixels (pack_binding wd))
       (wd\<lparr>buffers := (buffers wd)(pack_binding wd := framebuffer wd)\<rparr>)"

text \<open>
  \<open>glGetBufferSubData\<close> from offset 0: with a negative size, or one beyond the buffer's
  data, OpenGL records an error and writes nothing. The result is the destination
  slice afterwards; bytes written past its end are no part of the slice.
\<close>

definition gl_GetBufferSubData :: "int \<Rightarrow> 8 word list \<Rightarrow> world \<Rightarrow> 8 word list \<times> world" where
  "gl_GetBufferSubData sz dst wd =
     (let src = buffers wd (pack_binding wd);
          wd' = log_event (GL_GetBufferSubData (pack_binding wd) sz) wd
      in if 0 \<le> sz \<and> nat sz \<le> length src
         then (take (length dst) (take (nat sz) src @ drop (nat sz) dst), wd')
         else (dst, wd'))"

definition make_map :: "world \<Rightarrow> nat \<times> world" where
  "make_map wd = (next_ref wd, wd\<lparr>maps := (maps wd)(next_ref wd := []), next_ref := Suc (next_ref wd)\<rparr>)"

definition map_assign :: "nat \<Rightarrow> string \<Rightarrow> setter \<Rightarrow> world \<Rightarrow> world" where
  "map_assign r k v wd = wd\<lparr>maps := (maps wd)(r := AList.update k v (maps wd r))\<rparr>"

definition new_duration :: "world \<Rightarrow> nat \<times> world" where
  "new_duration wd =
     (next_ref wd, wd\<lparr>durations := (durations wd)(next_ref wd := 0), next_ref := Suc (next_ref wd)\<rparr>)"

section \<open>The frame engine\<close>

text \<open>
  A panic leaves the world as it is when it is raised: what was done before stays done.
  \<open>downloadImage\<close> panics in \<open>image.NewRGBA\<close>, at \<open>sh.pbos[pboIndex]\<close> with an index
  outside the ring, and at \<open>&img.Pix[0]\<close> when the image has no pixel.
\<close>

definition downloadImage ::
  "Shader \<Rightarrow> nat \<Rightarrow> world \<Rightarrow> (panic \<times> world) + (RGBA \<times> world)" where
  "downloadImage sh pboIndex wd =
     (case image_NewRGBA (image_Rect 0 0 (w sh) (h sh)) of
        Inl p \<Rightarrow> Inl (p, wd)
      | Inr img \<Rightarrow>
          if len_pbos \<le> pboIndex then Inl (IndexOutOfRange, wd)
          else
            (let wd1 = gl_BindBuffer pboIndex wd
             in if Pix img = [] then Inl (IndexOutOfRange, wd1)
                else
                  (let (pix, wd2) = gl_GetBufferSubData (sint (w sh * h sh * 4)) (Pix img) wd1
                   in Inr (img\<lparr>Pix := pix\<rparr>, wd2))))"

fun set_uniforms :: "Shader \<Rightarrow> uniform_values \<Rightarrow> world \<Rightarrow> world" where
  "set_uniforms sh [] wd = wd"
| "set_uniforms sh ((name, setValue) # rest) wd =
     set_uniforms sh rest
       (case uniforms sh name of
          Some u \<Rightarrow> gl_Uniforms (setValue (durations wd) (Location u)) wd
        | None \<Rightarrow> wd)"

definition drawImage ::
  "Shader \<Rightarrow> nat \<Rightarrow> uniform_values \<Rightarrow> world \<Rightarrow> (panic \<times> world) + world" where
  "drawImage sh pboIndex uniformValues wd =
     (let wd1 = gl_DrawArrays sh (set_uniforms sh uniformValues wd)
      in if len_pbos \<le> pboIndex then Inl (IndexOutOfRange, wd1)
         else Inr (gl_ReadPixels (gl_BindBuffer pboIndex wd1)))"

text \<open>
  The function literal of \<open>Image\<close> and \<open>Animate\<close> for \<open>resolution\<close>. (The method
  \<open>Image\<close> is \<open>Shader_Image\<close> here: \<open>Image\<close> is the image of a set under a relation.)
\<close>

definition resolution_func :: "Shader \<Rightarrow> setter" where
  "resolution_func sh =
     (\<lambda>vars loc. [Uniform2f loc (float32_of_int (uint (w sh))) (float32_of_int (uint (h sh)))])"

text \<open>
  The function literal of \<open>Animate\<close> for \<open>time\<close>: it captures the variable \<open>t\<close>, here at
  address \<open>t\<close> of the heap, and reads it when it is called.
\<close>

definition time_func :: "nat \<Rightarrow> setter" where
  "time_func t =
     (\<lambda>vars loc. [Uniform1f loc (float32_div (float32_of_int (sint (vars t)))
                                              (float32_of_int (sint Second)))])"

definition Shader_Image ::
  "Shader \<Rightarrow> nat option \<Rightarrow> world \<Rightarrow> (panic \<times> world) + (RGBA \<times> world)" where
  "Shader_Image sh uniformValues wd =
     (let (uv, wd1) = (case uniformValues of None \<Rightarrow> make_map wd | Some r \<Rightarrow> (r, wd));
          wd2 = (if map_of (maps wd1 uv) ''resolution'' = None
                 then map_assign uv ''resolution'' (resolution_func sh) wd1 else wd1)
      in case drawImage sh 0 (maps wd2 uv) wd2 of
           Inl p \<Rightarrow> Inl p
         | Inr wd3 \<Rightarrow> downloadImage sh 0 wd3)"

text \<open>
  The \<open>select\<close> of \<open>Animate\<close> has two cases: a receive from \<open>cancel\<close> and a send on
  \<open>stream\<close>. When both can proceed Go picks one by a uniform pseudo-random choice; when
  one can, it runs that one; when none can, it blocks. The environment says, for each
  execution of the \<open>select\<close>, which cases can proceed once it is resolved and what the
  random choice is; a \<open>select\<close> that is never resolved blocks for ever.
\<close>

datatype select_case = CaseCancel | CaseStream

record select_env =
  cancel_ready :: bool
  stream_ready :: bool
  pick :: select_case

definition select :: "select_env \<Rightarrow> select_case option" where
  "select e =
     (if cancel_ready e \<and> stream_ready e then Some (pick e)
      else if cancel_ready e then Some CaseCancel
      else if stream_ready e then Some CaseStream
      else None)"

text \<open>
  How a run of \<open>Animate\<close> ends, or where it stands: it has returned, it has panicked,
  it is blocked in the \<open>select\<close> for ever, or it is still running with the given frame
  counter after the number of iterations it was observed for.
\<close>

datatype outcome =
    Returned world
  | Panicked panic world
  | Blocked world
  | Running "64 word" "select_env list" world

datatype step =
    Next "select_env list" world
  | Stop outcome

definition Animate_body ::
  "Shader \<Rightarrow> 64 word \<Rightarrow> nat \<Rightarrow> nat \<Rightarrow> 64 word \<Rightarrow> select_env list \<Rightarrow> world \<Rightarrow> step" where
  "Animate_body sh interval uv t frame sel wd =
     (let wd1 = (if map_of (maps wd uv) ''resolution'' = None
                 then map_assign uv ''resolution'' (resolution_func sh) wd else wd);
          wd2 = map_assign uv ''time'' (time_func t) wd1;
          wd3 = wd2\<lparr>durations := (durations wd2)(t := durations wd2 t + interval)\<rparr>
      in case drawImage sh (unat (frame mod of_nat len_pbos)) (maps wd3 uv) wd3 of
           Inl (p, wd') \<Rightarrow> Stop (Panicked p wd')
         | Inr wd4 \<Rightarrow>
             if frame < of_nat len_pbos then Next sel wd4
             else
               (case downloadImage sh (unat ((frame - 1) mod of_nat len_pbos)) wd4 of
                  Inl (p, wd') \<Rightarrow> Stop (Panicked p wd')
                | Inr (img, wd5) \<Rightarrow>
                    (case sel of
                       [] \<Rightarrow> Stop (Blocked wd5)
                     | e # sel' \<Rightarrow>
                         (case select e of
                            None \<Rightarrow> Stop (Blocked wd5)
                          | Some CaseCancel \<Rightarrow> Stop (Returned (log_event RecvCancel wd5))
                          | Some CaseStream \<Rightarrow> Next sel' (log_event (Send img) wd5)))))"

text \<open>
  The loop \<open>for frame := uint64(0); ; frame++\<close> has no exit of its own. It is observed
  for a number of iterations: \<open>Running\<close> says that it has not ended within them.
\<close>

fun Animate_loop ::
  "nat \<Rightarrow> Shader \<Rightarrow> 64 word \<Rightarrow> nat \<Rightarrow> nat \<Rightarrow> 64 word \<Rightarrow> select_env list \<Rightarrow> world \<Rightarrow> outcome" where
  "Animate_loop 0 sh interval uv t frame sel wd = Running frame sel wd"
| "Animate_loop (Suc n) sh interval uv t frame sel wd =
     (case Animate_body sh interval uv t frame sel wd of
        Next sel' wd' \<Rightarrow> Animate_loop n sh interval uv t (frame + 1) sel' wd'
      | Stop r \<Rightarrow> r)"

text \<open>
  \<open>Animate\<close> itself: the table is made when the caller passes \<open>nil\<close>, the variable \<open>t\<close>
  is allocated with the value zero, and the loop starts with the frame counter at 0.
  The channels \<open>stream\<close> and \<open>cancel\<close> are the environment \<open>sel\<close> of the \<open>select\<close> and the
  events \<open>Send\<close> and \<open>RecvCancel\<close>; \<open>n\<close> is the number of iterations \<open>Animate\<close> is
  observed for.
\<close>

definition Animate ::
  "nat \<Rightarrow> Shader \<Rightarrow> 64 word \<Rightarrow> select_env list \<Rightarrow> nat option \<Rightarrow> world \<Rightarrow> outcome" where
  "Animate n sh interval sel uniformValues wd =
     (let (uv, wd1) = (case uniformValues of None \<Rightarrow> make_map wd | Some r \<Rightarrow> (r, wd));
          (t, wd2) = new_duration wd1
      in Animate_loop n sh interval uv t 0 sel wd2)"

section \<open>Observations\<close>

text \<open>
  The world an outcome, a step or a call of \<open>Image\<close> leaves, and the events logged
  between two worlds.
\<close>

fun world_of :: "outcome \<Rightarrow> world" where
  "world_of (Returned wd) = wd"
| "world_of (Panicked p wd) = wd"
| "world_of (Blocked wd) = wd"
| "world_of (Running frame sel wd) = wd"

fun step_world :: "step \<Rightarrow> world" where
  "step_world (Next sel wd) = wd"
| "step_world (Stop r) = world_of r"

definition result_world :: "(panic \<times> world) + ('a \<times> world) \<Rightarrow> world" where
  "result_world r = (case r of Inl (p, wd) \<Rightarrow> wd | Inr (x, wd) \<Rightarrow> wd)"

definition since :: "world \<Rightarrow> world \<Rightarrow> event list" where
  "since wd wd' = drop (length (events wd)) (events wd')"

text \<open>
  The images sent on the stream, the uniform states of the draws, and the ring slots of
  the transfers and of the readbacks of a log.
\<close>

fun sent :: "event list \<Rightarrow> RGBA list" where
  "sent [] = []"
| "sent (Send img # es) = img # sent es"
| "sent (e # es) = sent es"

fun drawn :: "event list \<Rightarrow> (32 word \<Rightarrow> uniform_call option) list" where
  "drawn [] = []"
| "drawn (GL_DrawArrays us # es) = us # drawn es"
| "drawn (e # es) = drawn es"

fun transfers :: "event list \<Rightarrow> nat list" where
  "transfers [] = []"
| "transfers (GL_ReadPixels s # es) = s # transfers es"
| "transfers (e # es) = transfers es"

fun readbacks :: "event list \<Rightarrow> nat list" where
  "readbacks [] = []"
| "readbacks (GL_GetBufferSubData s n # es) = s # readbacks es"
| "readbacks (e # es) = readbacks es"

text \<open>
  The draws logged before the first image is sent.
\<close>

fun before_first_send :: "event list \<Rightarrow> event list" where
  "before_first_send [] = []"
| "before_first_send (Send img # es) = []"
| "before_first_send (e # es) = e # before_first_send es"

text \<open>
  The lag of a readback: how many transfers into other slots were requested after the
  last transfer into the slot that is read, given the slots of the earlier transfers,
  the latest first; \<open>None\<close> when no transfer into the slot was requested at all.
  \<open>readback_lags\<close> lists the lags of the readbacks of a log.
\<close>

fun lag :: "nat \<Rightarrow> nat list \<Rightarrow> nat option" where
  "lag s [] = None"
| "lag s (x # xs) = (if x = s then Some 0 else map_option Suc (lag s xs))"

fun readback_lags :: "nat list \<Rightarrow> event list \<Rightarrow> nat option list" where
  "readback_lags ts [] = []"
| "readback_lags ts (GL_ReadPixels s # es) = readback_lags (s # ts) es"
| "readback_lags ts (GL_GetBufferSubData s n # es) = lag s ts # readback_lags ts es"
| "readback_lags ts (e # es) = readback_lags ts es"

text \<open>
  The uniform calls a draw makes for a table of setters, and the uniform state they
  leave.
\<close>

fun setter_calls :: "Shader \<Rightarrow> (nat \<Rightarrow> 64 word) \<Rightarrow> uniform_values \<Rightarrow> uniform_call list" where
  "setter_calls sh vars [] = []"
| "setter_calls sh vars ((name, setValue) # rest) =
     (case uniforms sh name of Some u \<Rightarrow> setValue vars (Location u) | None \<Rightarrow> [])
       @ setter_calls sh vars rest"

fun store_calls ::
  "uniform_call list \<Rightarrow> (32 word \<Rightarrow> uniform_call option) \<Rightarrow> 32 word \<Rightarrow> uniform_call option" where
  "store_calls [] us = us"
| "store_calls (c # cs) us =
     store_calls cs (if location c = - 1 then us else us(location c \<mapsto> c))"

text \<open>
  A table with the default \<open>resolution\<close> entry added where it has none, and with the
  \<open>time\<close> entry of \<open>Animate\<close> on top of that.
\<close>

definition ensure_resolution :: "Shader \<Rightarrow> uniform_values \<Rightarrow> uniform_values" where
  "ensure_resolution sh m =
     (if map_of m ''resolution'' = None then m @ [(''resolution'', resolution_func sh)] else m)"

definition animated :: "Shader \<Rightarrow> nat \<Rightarrow> uniform_values \<Rightarrow> uniform_values" where
  "animated sh t m = AList.update ''time'' (time_func t) (ensure_resolution sh m)"

text \<open>
  A caller's table in which only the entry of \<open>time\<close> writes the location \<open>l\<close>: it has
  one entry for a key, as a Go map has, and no other setter of it, nor the default one
  for \<open>resolution\<close> when it has none, makes a uniform call at \<open>l\<close> when it is called with
  the location of its own uniform.
\<close>

definition sole_time_writer :: "Shader \<Rightarrow> 32 word \<Rightarrow> uniform_values \<Rightarrow> bool" where
  "sole_time_writer sh l m =
     (distinct (map fst m)
      \<and> (\<forall>(name, setValue) \<in> set (ensure_resolution sh m).
            name \<noteq> ''time'' \<longrightarrow>
            (\<forall>u vars. uniforms sh name = Some u \<longrightarrow>
               (\<forall>c \<in> set (setValue vars (Location u)). location c \<noteq> l))))"

text \<open>
  The world of an iteration of \<open>Animate\<close> once the table has its entries and \<open>t\<close> is
  advanced, and the world after the calls of a \<open>drawImage\<close> into a slot of the ring.
\<close>

definition prepared :: "Shader \<Rightarrow> 64 word \<Rightarrow> nat \<Rightarrow> nat \<Rightarrow> world \<Rightarrow> world" where
  "prepared sh interval uv t wd =
     wd\<lparr>maps := (maps wd)(uv := animated sh t (maps wd uv)),
        durations := (durations wd)(t := durations wd t + interval)\<rparr>"

definition drawn_into :: "Shader \<Rightarrow> nat \<Rightarrow> uniform_values \<Rightarrow> world \<Rightarrow> world" where
  "drawn_into sh i m wd = gl_ReadPixels (gl_BindBuffer i (gl_DrawArrays sh (set_uniforms sh m wd)))"

text \<open>The events of the draw of an iteration of \<open>Animate\<close>.\<close>

definition draw_events :: "Shader \<Rightarrow> 64 word \<Rightarrow> nat \<Rightarrow> nat \<Rightarrow> 64 word \<Rightarrow> world \<Rightarrow> event list" where
  "draw_events sh interval uv t frame wd =
     since wd (drawn_into sh (unat (frame mod 3)) (animated sh t (maps wd uv))
                (prepared sh interval uv t wd))"

text \<open>
  The uniform states of the draws of \<open>n\<close> iterations of \<open>Animate\<close> in a row, from the
  values \<open>vars\<close> of the captured variables, \<open>t\<close> among them, and the uniform state \<open>us\<close>:
  in each iteration \<open>t\<close> is advanced, and then the setters of the table are called.
\<close>

fun draw_states ::
  "Shader \<Rightarrow> 64 word \<Rightarrow> nat \<Rightarrow> uniform_values \<Rightarrow> (nat \<Rightarrow> 64 word) \<Rightarrow>
   (32 word \<Rightarrow> uniform_call option) \<Rightarrow> nat \<Rightarrow> (32 word \<Rightarrow> uniform_call option) list" where
  "draw_states sh interval t m vars us 0 = []"
| "draw_states sh interval t m vars us (Suc n) =
     store_calls (setter_calls sh (vars(t := vars t + interval)) m) us
       # draw_states sh interval t m (vars(t := vars t + interval))
           (store_calls (setter_calls sh (vars(t := vars t + interval)) m) us) n"

text \<open>
  The dimensions for which no conversion between \<open>uint\<close> and \<open>int\<close> wraps: both
  positive, and \<open>4 * w * h\<close> below \<open>2^63\<close>.
\<close>

definition fits_int :: "Shader \<Rightarrow> bool" where
  "fits_int sh \<longleftrightarrow>
     0 < unat (w sh) \<and> 0 < unat (h sh) \<and> 4 * unat (w sh) * unat (h sh) < 2 ^ 63"

text \<open>
  What a readback of the whole frame gives from the data of a buffer, and the image
  \<open>downloadImage\<close> builds around it.
\<close>

definition readback :: "Shader \<Rightarrow> 8 word list \<Rightarrow> 8 word list" where
  "readback sh src =
     (let n = 4 * unat (w sh) * unat (h sh)
      in if n \<le> length src then take n src else replicate n 0)"

definition frame_image :: "Shader \<Rightarrow> 8 word list \<Rightarrow> RGBA" where
  "frame_image sh src =
     \<lparr>Pix = readback sh src, Stride = 4 * w sh,
      Rect = \<lparr>Min_pt = \<lparr>X = 0, Y = 0\<rparr>, Max_pt = \<lparr>X = w sh, Y = h sh\<rparr>\<rparr>\<rparr>"

text \<open>
  An image of the whole surface: \<open>4 * w * h\<close> bytes, rows of \<open>4 * w\<close> bytes, on the
  rectangle from \<open>(0, 0)\<close> to \<open>(w, h)\<close>.
\<close>

definition whole_frame :: "Shader \<Rightarrow> RGBA \<Rightarrow> bool" where
  "whole_frame sh img \<longleftrightarrow>
     length (Pix img) = 4 * unat (w sh) * unat (h sh)
     \<and> unat (Stride img) = 4 * unat (w sh)
     \<and> Rect img = \<lparr>Min_pt = \<lparr>X = 0, Y = 0\<rparr>, Max_pt = \<lparr>X = w sh, Y = h sh\<rparr>\<rparr>"

section \<open>A small surface\<close>

text \<open>
  A surface of 2 by 1 pixels whose program has the uniforms \<open>time\<close> (location 0) and
  \<open>resolution\<close> (location 1) and paints every byte with the whole seconds of \<open>time\<close>;
  a surface of width \<open>2^64 - 1\<close>, the largest \<open>uint\<close>, and height 1; and a world in which nothing has
  happened yet.
\<close>

definition paint_time :: "(32 word \<Rightarrow> uniform_call option) \<Rightarrow> 8 word list" where
  "paint_time us =
     replicate 8 (case us 0 of Some (Uniform1f l x) \<Rightarrow> word_of_int \<lfloor>x\<rfloor> | _ \<Rightarrow> 0)"

definition small_shader :: Shader where
  "small_shader =
     \<lparr>w = 2, h = 1,
      uniforms = [''time'' \<mapsto> \<lparr>Type = 5126, Location = 0\<rparr>,
                  ''resolution'' \<mapsto> \<lparr>Type = 35664, Location = 1\<rparr>],
      program = paint_time\<rparr>"

definition wide_shader :: Shader where
  "wide_shader = small_shader\<lparr>w := 18446744073709551615, h := 1\<rparr>"

definition new_world :: world where
  "new_world =
     \<lparr>durations = (\<lambda>a. 0), maps = (\<lambda>r. []), next_ref = 0, uniform_store = Map.empty,
      framebuffer = [], buffers = (\<lambda>i. []), pack_binding = 0, events = []\<rparr>"

text \<open>
  A world in which the caller has made a table, at reference 0, with a setter for
  \<open>time\<close> and one for a uniform \<open>speed\<close> that the program does not have.
\<close>

definition caller_world :: world where
  "caller_world =
     new_world\<lparr>maps := (\<lambda>r. [])(0 := [(''time'', \<lambda>vars loc. [Uniform1f loc 42]),
                                         (''speed'', \<lambda>vars loc. [Uniform1f loc 2])]),
               next_ref := 1\<rparr>"

text \<open>
  The states of the channels at a \<open>select\<close>: only the consumer is ready, only the
  cancellation is, and both are with the random choice falling on the send.
\<close>

definition deliver :: select_env where
  "deliver = \<lparr>cancel_ready = False, stream_ready = True, pick = CaseStream\<rparr>"

definition cancelled :: select_env where
  "cancelled = \<lparr>cancel_ready = True, stream_ready = False, pick = CaseCancel\<rparr>"

definition both_send :: select_env where
  "both_send = \<lparr>cancel_ready = True, stream_ready = True, pick = CaseStream\<rparr>"

section \<open>The effect of each call on the world\<close>

lemma log_event_fields [simp]:
  "events (log_event e wd) = events wd @ [e]"
  "durations (log_event e wd) = durations wd"
  "maps (log_event e wd) = maps wd"
  "next_ref (log_event e wd) = next_ref wd"
  "uniform_store (log_event e wd) = uniform_store wd"
  "framebuffer (log_event e wd) = framebuffer wd"
  "buffers (log_event e wd) = buffers wd"
  "pack_binding (log_event e wd) = pack_binding wd"
  by (simp_all add: log_event_def)

lemma gl_Uniform_fields [simp]:
  "events (gl_Uniform c wd) = events wd @ [GL_Uniform c]"
  "durations (gl_Uniform c wd) = durations wd"
  "maps (gl_Uniform c wd) = maps wd"
  "next_ref (gl_Uniform c wd) = next_ref wd"
  "framebuffer (gl_Uniform c wd) = framebuffer wd"
  "buffers (gl_Uniform c wd) = buffers wd"
  "pack_binding (gl_Uniform c wd) = pack_binding wd"
  by (simp_all add: gl_Uniform_def)

lemma gl_Uniforms_fields [simp]:
  "events (gl_Uniforms cs wd) = events wd @ map GL_Uniform cs"
  "durations (gl_Uniforms cs wd) = durations wd"
  "maps (gl_Uniforms cs wd) = maps wd"
  "next_ref (gl_Uniforms cs wd) = next_ref wd"
  "framebuffer (gl_Uniforms cs wd) = framebuffer wd"
  "buffers (gl_Uniforms cs wd) = buffers wd"
  "pack_binding (gl_Uniforms cs wd) = pack_binding wd"
  by (induction cs arbitrary: wd; simp)+

lemma uniform_store_gl_Uniforms [simp]:
  "uniform_store (gl_Uniforms cs wd) = store_calls cs (uniform_store wd)"
  by (induction cs arbitrary: wd) (simp_all add: gl_Uniform_def)

lemma gl_Uniforms_append: "gl_Uniforms (cs @ ds) wd = gl_Uniforms ds (gl_Uniforms cs wd)"
  by (induction cs arbitrary: wd) simp_all

lemma set_uniforms_calls:
  "set_uniforms sh uv wd = gl_Uniforms (setter_calls sh (durations wd) uv) wd"
  by (induction uv arbitrary: wd) (auto simp: gl_Uniforms_append split: option.splits)

lemma set_uniforms_delete:
  "uniforms sh name = None \<Longrightarrow> set_uniforms sh (AList.delete name uv) wd = set_uniforms sh uv wd"
  by (induction uv arbitrary: wd) (auto split: option.splits)

lemma set_uniforms_fields [simp]:
  "events (set_uniforms sh uv wd) = events wd @ map GL_Uniform (setter_calls sh (durations wd) uv)"
  "durations (set_uniforms sh uv wd) = durations wd"
  "maps (set_uniforms sh uv wd) = maps wd"
  "next_ref (set_uniforms sh uv wd) = next_ref wd"
  "uniform_store (set_uniforms sh uv wd)
     = store_calls (setter_calls sh (durations wd) uv) (uniform_store wd)"
  "framebuffer (set_uniforms sh uv wd) = framebuffer wd"
  "buffers (set_uniforms sh uv wd) = buffers wd"
  "pack_binding (set_uniforms sh uv wd) = pack_binding wd"
  by (simp_all add: set_uniforms_calls)

lemma gl_DrawArrays_fields [simp]:
  "events (gl_DrawArrays sh wd) = events wd @ [GL_DrawArrays (uniform_store wd)]"
  "durations (gl_DrawArrays sh wd) = durations wd"
  "maps (gl_DrawArrays sh wd) = maps wd"
  "next_ref (gl_DrawArrays sh wd) = next_ref wd"
  "uniform_store (gl_DrawArrays sh wd) = uniform_store wd"
  "framebuffer (gl_DrawArrays sh wd) = program sh (uniform_store wd)"
  "buffers (gl_DrawArrays sh wd) = buffers wd"
  "pack_binding (gl_DrawArrays sh wd) = pack_binding wd"
  by (simp_all add: gl_DrawArrays_def)

lemma gl_BindBuffer_fields [simp]:
  "events (gl_BindBuffer i wd) = events wd @ [GL_BindBuffer i]"
  "durations (gl_BindBuffer i wd) = durations wd"
  "maps (gl_BindBuffer i wd) = maps wd"
  "next_ref (gl_BindBuffer i wd) = next_ref wd"
  "uniform_store (gl_BindBuffer i wd) = uniform_store wd"
  "framebuffer (gl_BindBuffer i wd) = framebuffer wd"
  "buffers (gl_BindBuffer i wd) = buffers wd"
  "pack_binding (gl_BindBuffer i wd) = i"
  by (simp_all add: gl_BindBuffer_def)

lemma gl_ReadPixels_fields [simp]:
  "events (gl_ReadPixels wd) = events wd @ [GL_ReadPixels (pack_binding wd)]"
  "durations (gl_ReadPixels wd) = durations wd"
  "maps (gl_ReadPixels wd) = maps wd"
  "next_ref (gl_ReadPixels wd) = next_ref wd"
  "uniform_store (gl_ReadPixels wd) = uniform_store wd"
  "framebuffer (gl_ReadPixels wd) = framebuffer wd"
  "buffers (gl_ReadPixels wd) = (buffers wd)(pack_binding wd := framebuffer wd)"
  "pack_binding (gl_ReadPixels wd) = pack_binding wd"
  by (simp_all add: gl_ReadPixels_def)

lemma map_assign_fields [simp]:
  "events (map_assign r k v wd) = events wd"
  "durations (map_assign r k v wd) = durations wd"
  "maps (map_assign r k v wd) = (maps wd)(r := AList.update k v (maps wd r))"
  "next_ref (map_assign r k v wd) = next_ref wd"
  "uniform_store (map_assign r k v wd) = uniform_store wd"
  "framebuffer (map_assign r k v wd) = framebuffer wd"
  "buffers (map_assign r k v wd) = buffers wd"
  "pack_binding (map_assign r k v wd) = pack_binding wd"
  by (simp_all add: map_assign_def)

lemma make_map_fields [simp]:
  "fst (make_map wd) = next_ref wd"
  "events (snd (make_map wd)) = events wd"
  "durations (snd (make_map wd)) = durations wd"
  "maps (snd (make_map wd)) = (maps wd)(next_ref wd := [])"
  "next_ref (snd (make_map wd)) = Suc (next_ref wd)"
  "uniform_store (snd (make_map wd)) = uniform_store wd"
  "framebuffer (snd (make_map wd)) = framebuffer wd"
  "buffers (snd (make_map wd)) = buffers wd"
  "pack_binding (snd (make_map wd)) = pack_binding wd"
  by (simp_all add: make_map_def)

lemma new_duration_fields [simp]:
  "fst (new_duration wd) = next_ref wd"
  "events (snd (new_duration wd)) = events wd"
  "durations (snd (new_duration wd)) = (durations wd)(next_ref wd := 0)"
  "maps (snd (new_duration wd)) = maps wd"
  "next_ref (snd (new_duration wd)) = Suc (next_ref wd)"
  "uniform_store (snd (new_duration wd)) = uniform_store wd"
  "framebuffer (snd (new_duration wd)) = framebuffer wd"
  "buffers (snd (new_duration wd)) = buffers wd"
  "pack_binding (snd (new_duration wd)) = pack_binding wd"
  by (simp_all add: new_duration_def)

section \<open>Tables\<close>

lemma update_absent: "map_of al k = None \<Longrightarrow> AList.update k v al = al @ [(k, v)]"
  by (induction al) auto

lemma update_present: "map_of al k = Some v \<Longrightarrow> AList.update k v al = al"
  by (induction al) auto

lemma map_of_ensure_resolution:
  "map_of (ensure_resolution sh m) k =
     (if k = ''resolution'' \<and> map_of m k = None then Some (resolution_func sh) else map_of m k)"
  by (auto simp: ensure_resolution_def map_add_def split: option.splits)

lemma map_of_animated:
  "map_of (animated sh t m) k =
     (if k = ''time'' then Some (time_func t)
      else if k = ''resolution'' \<and> map_of m k = None then Some (resolution_func sh)
      else map_of m k)"
  by (simp add: animated_def update_conv' map_of_ensure_resolution)

lemma animated_idem: "animated sh t (animated sh t m) = animated sh t m"
proof -
  have "map_of (animated sh t m) ''resolution'' \<noteq> None"
    by (simp add: map_of_animated)
  then have "ensure_resolution sh (animated sh t m) = animated sh t m"
    by (simp add: ensure_resolution_def)
  moreover have "map_of (animated sh t m) ''time'' = Some (time_func t)"
    by (simp add: map_of_animated)
  ultimately show ?thesis
    by (simp add: animated_def [of sh t "animated sh t m"] update_present)
qed

section \<open>Words\<close>

lemma unat_mod_3 [simp]: "unat ((x :: 64 word) mod 3) < 3"
  by (simp add: unat_mod)

lemma sint_small:
  fixes x :: "64 word"
  assumes "unat x < 2 ^ 63"
  shows "sint x = int (unat x)"
proof -
  have "int (unat x) < int (2 ^ 63)"
    using assms by (simp only: of_nat_less_iff)
  then have "uint x < 2 ^ 63"
    by simp
  moreover have "- (2 ^ 63) \<le> uint x"
    by (rule order_trans [of _ 0]) simp_all
  ultimately have "signed_take_bit 63 (uint x) = uint x"
    by (intro signed_take_bit_int_eq_self)
  then show ?thesis
    by (simp add: sint_uint)
qed

lemma unat_mul4:
  fixes a b :: "64 word"
  assumes "4 * unat a * unat b < 2 ^ 63"
  shows "unat (a * b * 4) = 4 * unat a * unat b"
proof -
  have ab: "unat a * unat b < 2 ^ LENGTH(64)"
    using assms by simp
  then have 1: "unat (a * b) = unat a * unat b"
    by (simp only: unat_mult_lem)
  have "unat (4 :: 64 word) = 4"
    by simp
  then have "unat (a * b) * unat (4 :: 64 word) < 2 ^ LENGTH(64)"
    using assms 1 by simp
  then have "unat (a * b * 4) = unat (a * b) * unat (4 :: 64 word)"
    by (simp only: unat_mult_lem)
  with 1 show ?thesis by simp
qed

lemma fits_int_bounds:
  assumes "fits_int sh"
  shows "unat (w sh) < 2 ^ 63" "unat (h sh) < 2 ^ 63"
proof -
  have wpos: "1 \<le> unat (w sh)" and hpos: "1 \<le> unat (h sh)"
    and b: "4 * unat (w sh) * unat (h sh) < 2 ^ 63"
    using assms by (simp_all add: fits_int_def)
  have "unat (w sh) * 1 \<le> unat (w sh) * (4 * unat (h sh))"
    using hpos by (intro mult_le_mono2) linarith
  also have "\<dots> = 4 * unat (w sh) * unat (h sh)"
    by (simp only: mult_ac)
  finally show "unat (w sh) < 2 ^ 63" using b by linarith
  have "unat (h sh) * 1 \<le> unat (h sh) * (4 * unat (w sh))"
    using wpos by (intro mult_le_mono2) linarith
  also have "\<dots> = 4 * unat (w sh) * unat (h sh)"
    by (simp only: mult_ac)
  finally show "unat (h sh) < 2 ^ 63" using b by linarith
qed

section \<open>Drawing and reading back\<close>

lemma NewRGBA_fits:
  assumes "fits_int sh"
  shows "image_NewRGBA (image_Rect 0 0 (w sh) (h sh))
         = Inr \<lparr>Pix = replicate (4 * unat (w sh) * unat (h sh)) 0, Stride = 4 * w sh,
                Rect = \<lparr>Min_pt = \<lparr>X = 0, Y = 0\<rparr>, Max_pt = \<lparr>X = w sh, Y = h sh\<rparr>\<rparr>\<rparr>"
proof -
  have b: "4 * unat (w sh) * unat (h sh) < 2 ^ 63"
    using assms by (simp add: fits_int_def)
  have sw: "sint (w sh) = int (unat (w sh))" and sh': "sint (h sh) = int (unat (h sh))"
    using fits_int_bounds [OF assms] by (simp_all only: sint_small)
  show ?thesis
    using b by (simp add: image_NewRGBA_def image_Rect_def Dx_def Dy_def sw sh' del: of_nat_unat)
qed

lemma downloadImage_fits:
  assumes "fits_int sh" and "pboIndex < len_pbos"
  shows "downloadImage sh pboIndex wd =
           Inr (frame_image sh (buffers wd pboIndex),
                log_event (GL_GetBufferSubData pboIndex (int (4 * unat (w sh) * unat (h sh))))
                  (gl_BindBuffer pboIndex wd))"
proof -
  have b: "4 * unat (w sh) * unat (h sh) < 2 ^ 63" and pos: "0 < unat (w sh)" "0 < unat (h sh)"
    using assms(1) by (simp_all add: fits_int_def)
  have u: "unat (w sh * h sh * 4) = 4 * unat (w sh) * unat (h sh)"
    using b by (rule unat_mul4)
  have s: "sint (w sh * h sh * 4) = int (4 * unat (w sh) * unat (h sh))"
    using b by (simp only: sint_small u)
  have ne: "replicate (4 * unat (w sh) * unat (h sh)) (0 :: 8 word) \<noteq> []"
    using pos by simp
  show ?thesis
    using assms(2) ne
    by (simp add: downloadImage_def NewRGBA_fits [OF assms(1)] s gl_GetBufferSubData_def
        Let_def frame_image_def readback_def del: of_nat_mult of_nat_unat)
qed

lemma drawImage_ok:
  "pboIndex < len_pbos \<Longrightarrow>
   drawImage sh pboIndex m wd =
     Inr (gl_ReadPixels (gl_BindBuffer pboIndex (gl_DrawArrays sh (set_uniforms sh m wd))))"
  by (simp add: drawImage_def)

lemma prepared_fields [simp]:
  "events (prepared sh interval uv t wd) = events wd"
  "durations (prepared sh interval uv t wd) = (durations wd)(t := durations wd t + interval)"
  "maps (prepared sh interval uv t wd) = (maps wd)(uv := animated sh t (maps wd uv))"
  "next_ref (prepared sh interval uv t wd) = next_ref wd"
  "uniform_store (prepared sh interval uv t wd) = uniform_store wd"
  "framebuffer (prepared sh interval uv t wd) = framebuffer wd"
  "buffers (prepared sh interval uv t wd) = buffers wd"
  "pack_binding (prepared sh interval uv t wd) = pack_binding wd"
  by (simp_all add: prepared_def)

lemma drawn_into_fields [simp]:
  "events (drawn_into sh i m wd) =
     events wd @ map GL_Uniform (setter_calls sh (durations wd) m) @
       [GL_DrawArrays (store_calls (setter_calls sh (durations wd) m) (uniform_store wd)),
        GL_BindBuffer i, GL_ReadPixels i]"
  "durations (drawn_into sh i m wd) = durations wd"
  "maps (drawn_into sh i m wd) = maps wd"
  "next_ref (drawn_into sh i m wd) = next_ref wd"
  "uniform_store (drawn_into sh i m wd)
     = store_calls (setter_calls sh (durations wd) m) (uniform_store wd)"
  "framebuffer (drawn_into sh i m wd)
     = program sh (store_calls (setter_calls sh (durations wd) m) (uniform_store wd))"
  "buffers (drawn_into sh i m wd)
     = (buffers wd)(i := program sh (store_calls (setter_calls sh (durations wd) m) (uniform_store wd)))"
  "pack_binding (drawn_into sh i m wd) = i"
  by (simp_all add: drawn_into_def)

lemma prepared_eq:
  "(map_assign uv ''time'' (time_func t)
      (if map_of (maps wd uv) ''resolution'' = None
       then map_assign uv ''resolution'' (resolution_func sh) wd else wd))
     \<lparr>durations := (durations wd)(t := durations wd t + interval)\<rparr>
   = prepared sh interval uv t wd"
  by (simp add: map_assign_def prepared_def animated_def ensure_resolution_def update_absent)

lemma Animate_body_eq:
  "Animate_body sh interval uv t frame sel wd =
     (let wd3 = prepared sh interval uv t wd;
          wd4 = drawn_into sh (unat (frame mod 3)) (maps wd3 uv) wd3
      in if frame < 3 then Next sel wd4
         else
           (case downloadImage sh (unat ((frame - 1) mod 3)) wd4 of
              Inl (p, wd') \<Rightarrow> Stop (Panicked p wd')
            | Inr (img, wd5) \<Rightarrow>
                (case sel of
                   [] \<Rightarrow> Stop (Blocked wd5)
                 | e # sel' \<Rightarrow>
                     (case select e of
                        None \<Rightarrow> Stop (Blocked wd5)
                      | Some CaseCancel \<Rightarrow> Stop (Returned (log_event RecvCancel wd5))
                      | Some CaseStream \<Rightarrow> Next sel' (log_event (Send img) wd5)))))"
proof -
  have "map_assign uv ''time'' (time_func t)
          (if map_of (maps wd uv) ''resolution'' = None
           then map_assign uv ''resolution'' (resolution_func sh) wd else wd)
        \<lparr>durations :=
           (durations (map_assign uv ''time'' (time_func t)
              (if map_of (maps wd uv) ''resolution'' = None
               then map_assign uv ''resolution'' (resolution_func sh) wd else wd)))
           (t := durations (map_assign uv ''time'' (time_func t)
              (if map_of (maps wd uv) ''resolution'' = None
               then map_assign uv ''resolution'' (resolution_func sh) wd else wd)) t + interval)\<rparr>
        = prepared sh interval uv t wd"
    by (simp add: prepared_eq [symmetric])
  then show ?thesis
    by (simp add: Animate_body_def Let_def len_pbos_def drawImage_ok drawn_into_def)
qed

section \<open>Reading a log\<close>

lemma sent_append [simp]: "sent (xs @ ys) = sent xs @ sent ys"
  by (induction xs rule: sent.induct) simp_all

lemma drawn_append [simp]: "drawn (xs @ ys) = drawn xs @ drawn ys"
  by (induction xs rule: drawn.induct) simp_all

lemma transfers_append [simp]: "transfers (xs @ ys) = transfers xs @ transfers ys"
  by (induction xs rule: transfers.induct) simp_all

lemma readbacks_append [simp]: "readbacks (xs @ ys) = readbacks xs @ readbacks ys"
  by (induction xs rule: readbacks.induct) simp_all

lemma uniforms_unseen [simp]:
  "sent (map GL_Uniform cs) = []"
  "drawn (map GL_Uniform cs) = []"
  "transfers (map GL_Uniform cs) = []"
  "readbacks (map GL_Uniform cs) = []"
  by (induction cs; simp)+

lemma readback_lags_append:
  "readback_lags ts (xs @ ys) = readback_lags ts xs @ readback_lags (rev (transfers xs) @ ts) ys"
  by (induction ts xs rule: readback_lags.induct) simp_all

lemma readback_lags_uniforms [simp]: "readback_lags ts (map GL_Uniform cs) = []"
  by (induction cs) simp_all

lemma before_first_send_append:
  "before_first_send (xs @ ys) =
     (if sent xs = [] then xs @ before_first_send ys else before_first_send xs)"
  by (induction xs rule: before_first_send.induct) simp_all

lemma since_append [simp]: "events wd' = events wd @ es \<Longrightarrow> since wd wd' = es"
  by (simp add: since_def)

lemma since_self [simp]: "since wd wd = []"
  by (simp add: since_def)

section \<open>One iteration\<close>

lemma downloadImage_Inr:
  assumes "downloadImage sh i wd = Inr (img, wd')"
  shows "wd' = log_event (GL_GetBufferSubData i (sint (w sh * h sh * 4))) (gl_BindBuffer i wd)"
    and "i < len_pbos"
  using assms
  by (auto simp: downloadImage_def Let_def gl_GetBufferSubData_def
      split: sum.splits if_splits prod.splits)

lemma downloadImage_Inl:
  assumes "downloadImage sh i wd = Inl (p, wd')"
  shows "wd' = wd \<or> wd' = gl_BindBuffer i wd"
  using assms
  by (auto simp: downloadImage_def Let_def split: sum.splits if_splits prod.splits)

lemma Animate_body_cases [case_names skip panic blocked cancel send]:
  fixes sh interval uv t frame sel wd
  defines "wd4 \<equiv> drawn_into sh (unat (frame mod 3)) (animated sh t (maps wd uv))
                    (prepared sh interval uv t wd)"
      and "b \<equiv> unat ((frame - 1) mod 3)"
  obtains
    (skip) "frame < 3" "Animate_body sh interval uv t frame sel wd = Next sel wd4"
  | (panic) p wd' where "\<not> frame < 3" "downloadImage sh b wd4 = Inl (p, wd')"
      "Animate_body sh interval uv t frame sel wd = Stop (Panicked p wd')"
  | (blocked) img wd5 where "\<not> frame < 3" "downloadImage sh b wd4 = Inr (img, wd5)"
      "case sel of [] \<Rightarrow> True | e # sel' \<Rightarrow> select e = None"
      "Animate_body sh interval uv t frame sel wd = Stop (Blocked wd5)"
  | (cancel) img wd5 e sel' where "\<not> frame < 3" "downloadImage sh b wd4 = Inr (img, wd5)"
      "sel = e # sel'" "select e = Some CaseCancel"
      "Animate_body sh interval uv t frame sel wd = Stop (Returned (log_event RecvCancel wd5))"
  | (send) img wd5 e sel' where "\<not> frame < 3" "downloadImage sh b wd4 = Inr (img, wd5)"
      "sel = e # sel'" "select e = Some CaseStream"
      "Animate_body sh interval uv t frame sel wd = Next sel' (log_event (Send img) wd5)"
proof (cases "frame < 3")
  case True
  then show ?thesis
    using skip by (simp add: Animate_body_eq wd4_def)
next
  case False
  show ?thesis
  proof (cases "downloadImage sh b wd4")
    case (Inl a)
    then obtain p wd' where "downloadImage sh b wd4 = Inl (p, wd')"
      by (cases a) simp
    then show ?thesis
      using False panic [of p wd']
      by (simp add: Animate_body_eq wd4_def b_def)
  next
    case (Inr a)
    then obtain img wd5 where dl: "downloadImage sh b wd4 = Inr (img, wd5)"
      by (cases a) simp
    show ?thesis
    proof (cases sel)
      case Nil
      then show ?thesis
        using False dl blocked [of img wd5]
        by (simp add: Animate_body_eq wd4_def b_def)
    next
      case (Cons e sel')
      show ?thesis
      proof (cases "select e")
        case None
        then show ?thesis
          using False dl Cons blocked [of img wd5]
          by (simp add: Animate_body_eq wd4_def b_def)
      next
        case (Some c)
        then show ?thesis
          using False dl Cons cancel [of img wd5 e sel'] send [of img wd5 e sel']
          by (cases c) (simp_all add: Animate_body_eq wd4_def b_def)
      qed
    qed
  qed
qed

lemma Animate_body_worlds [case_names skip panic blocked cancel send]:
  fixes sh interval uv t frame sel wd
  defines "wd4 \<equiv> drawn_into sh (unat (frame mod 3)) (animated sh t (maps wd uv))
                    (prepared sh interval uv t wd)"
      and "b \<equiv> unat ((frame - 1) mod 3)"
  defines "wd5 \<equiv> log_event (GL_GetBufferSubData b (sint (w sh * h sh * 4))) (gl_BindBuffer b wd4)"
  obtains
    (skip) "frame < 3" "Animate_body sh interval uv t frame sel wd = Next sel wd4"
  | (panic) p wd' where "\<not> frame < 3" "wd' = wd4 \<or> wd' = gl_BindBuffer b wd4"
      "\<not> fits_int sh"
      "Animate_body sh interval uv t frame sel wd = Stop (Panicked p wd')"
  | (blocked) "\<not> frame < 3" "case sel of [] \<Rightarrow> True | e # sel' \<Rightarrow> select e = None"
      "Animate_body sh interval uv t frame sel wd = Stop (Blocked wd5)"
  | (cancel) e sel' where "\<not> frame < 3" "sel = e # sel'" "select e = Some CaseCancel"
      "Animate_body sh interval uv t frame sel wd = Stop (Returned (log_event RecvCancel wd5))"
  | (send) img e sel' where "\<not> frame < 3" "downloadImage sh b wd4 = Inr (img, wd5)"
      "sel = e # sel'" "select e = Some CaseStream"
      "Animate_body sh interval uv t frame sel wd = Next sel' (log_event (Send img) wd5)"
proof (cases rule: Animate_body_cases [of frame sh interval uv t sel wd])
  case skip
  then show ?thesis using that(1) by (simp add: wd4_def)
next
  case (panic p wd')
  have "\<not> fits_int sh"
    using panic(2) downloadImage_fits [of sh "unat ((frame - 1) mod 3)"]
    by (auto simp: len_pbos_def)
  then show ?thesis
    using panic that(2) [of wd' p] downloadImage_Inl [OF panic(2)]
    by (simp add: wd4_def b_def)
next
  case (blocked img wd5')
  then show ?thesis
    using that(3) downloadImage_Inr(1) [OF blocked(2)]
    by (simp add: wd4_def b_def wd5_def)
next
  case (cancel img wd5' e sel')
  then show ?thesis
    using that(4) [of e sel'] downloadImage_Inr(1) [OF cancel(2)]
    by (simp add: wd4_def b_def wd5_def)
next
  case (send img wd5' e sel')
  then show ?thesis
    using that(5) [of img e sel'] downloadImage_Inr(1) [OF send(2)]
    by (simp add: wd4_def b_def wd5_def)
qed

section \<open>The loop\<close>

lemma Animate_loop_maps:
  "maps (world_of (Animate_loop n sh interval uv t frame sel wd)) =
     (if n = 0 then maps wd else (maps wd)(uv := animated sh t (maps wd uv)))"
proof (induction n arbitrary: frame sel wd)
  case 0
  show ?case by simp
next
  case (Suc n)
  show ?case
  proof (cases rule: Animate_body_worlds [of frame sh interval uv t sel wd])
    case skip
    then show ?thesis by (auto simp: Suc animated_idem)
  next
    case (panic p wd')
    then show ?thesis by auto
  next
    case blocked
    then show ?thesis by simp
  next
    case (cancel e sel')
    then show ?thesis by simp
  next
    case (send img e sel')
    then show ?thesis by (auto simp: Suc animated_idem)
  qed
qed

lemma Animate_loop_prefix:
  "\<exists>es. events (world_of (Animate_loop n sh interval uv t frame sel wd)) = events wd @ es"
proof (induction n arbitrary: frame sel wd)
  case 0
  show ?case by simp
next
  case (Suc n)
  show ?case
  proof (cases rule: Animate_body_worlds [of frame sh interval uv t sel wd])
    case skip
    from Suc [of "frame + 1" sel
        "drawn_into sh (unat (frame mod 3)) (animated sh t (maps wd uv)) (prepared sh interval uv t wd)"]
    show ?thesis using skip by auto
  next
    case (panic p wd')
    then show ?thesis by auto
  next
    case blocked
    then show ?thesis by simp
  next
    case (cancel e sel')
    then show ?thesis by simp
  next
    case (send img e sel')
    from Suc [of "frame + 1" sel' "log_event (Send img)
       (log_event (GL_GetBufferSubData (unat ((frame - 1) mod 3)) (sint (w sh * h sh * 4)))
         (gl_BindBuffer (unat ((frame - 1) mod 3))
           (drawn_into sh (unat (frame mod 3)) (animated sh t (maps wd uv))
             (prepared sh interval uv t wd))))"]
    show ?thesis using send by auto
  qed
qed

lemma Animate_loop_Running:
  assumes "Animate_loop n sh interval uv t frame sel wd = Running frame' sel' wd'"
  shows "frame' = frame + of_nat n \<and> durations wd' t = durations wd t + of_nat n * interval"
  using assms
proof (induction n arbitrary: frame sel wd)
  case 0
  then show ?case by simp
next
  case (Suc n)
  show ?case
  proof (cases rule: Animate_body_worlds [of frame sh interval uv t sel wd])
    case skip
    with Suc.prems have "Animate_loop n sh interval uv t (frame + 1) sel
        (drawn_into sh (unat (frame mod 3)) (animated sh t (maps wd uv))
          (prepared sh interval uv t wd)) = Running frame' sel' wd'"
      by simp
    from Suc.IH [OF this] show ?thesis
      by (simp add: algebra_simps)
  next
    case (panic p wd')
    with Suc.prems show ?thesis by simp
  next
    case blocked
    with Suc.prems show ?thesis by simp
  next
    case (cancel e sel')
    with Suc.prems show ?thesis by simp
  next
    case (send img e sel'')
    with Suc.prems have "Animate_loop n sh interval uv t (frame + 1) sel'' (log_event (Send img)
       (log_event (GL_GetBufferSubData (unat ((frame - 1) mod 3)) (sint (w sh * h sh * 4)))
         (gl_BindBuffer (unat ((frame - 1) mod 3))
           (drawn_into sh (unat (frame mod 3)) (animated sh t (maps wd uv))
             (prepared sh interval uv t wd))))) = Running frame' sel' wd'"
      by simp
    from Suc.IH [OF this] show ?thesis
      by (simp add: algebra_simps)
  qed
qed

lemma step_world_maps:
  "maps (step_world (Animate_body sh interval uv t frame sel wd))
     = (maps wd)(uv := animated sh t (maps wd uv))"
  using Animate_loop_maps [of "Suc 0" sh interval uv t frame sel wd]
  by (cases "Animate_body sh interval uv t frame sel wd") simp_all

lemma step_world_durations:
  "durations (step_world (Animate_body sh interval uv t frame sel wd))
     = (durations wd)(t := durations wd t + interval)"
  by (cases rule: Animate_body_worlds [of frame sh interval uv t sel wd]) auto

lemma fits_small [simp]: "fits_int small_shader"
  by (simp add: fits_int_def small_shader_def)

lemma select_small [simp]:
  "select deliver = Some CaseStream"
  "select cancelled = Some CaseCancel"
  "select both_send = Some CaseStream"
  by (simp_all add: select_def deliver_def cancelled_def both_send_def)

text \<open>
  Claim C6. In every iteration of \<open>Animate\<close>, whatever the table holds and however the
  iteration ends, the table then maps \<open>time\<close> to the setter of the animation clock,
  which pushes \<open>float32(t)/float32(time.Second)\<close> for the variable \<open>t\<close> of the loop,
  advanced by one interval in the iteration; and it maps \<open>resolution\<close> to the setter
  it had, the default one being put there only when it had none.
\<close>

theorem Animate_iteration_bindings:
  "map_of (maps (step_world (Animate_body sh interval uv t frame sel wd)) uv) ''time''
     = Some (time_func t)
   \<and> map_of (maps (step_world (Animate_body sh interval uv t frame sel wd)) uv) ''resolution''
     = Some (case map_of (maps wd uv) ''resolution'' of
               None \<Rightarrow> resolution_func sh | Some setValue \<Rightarrow> setValue)
   \<and> time_func t vars loc
     = [Uniform1f loc (float32_div (float32_of_int (sint (vars t))) (float32_of_int (sint Second)))]
   \<and> durations (step_world (Animate_body sh interval uv t frame sel wd)) t
     = durations wd t + interval"
  by (simp add: step_world_maps step_world_durations map_of_animated time_func_def
      split: option.splits)

text \<open>
  Claim C7. A binding whose name is not among the uniforms of the program changes
  nothing in a draw: \<open>drawImage\<close> does with it exactly what it does without it, the
  same calls, the same frame, the same transfer; and a draw into a slot of the ring
  raises no error.
\<close>

theorem drawImage_ignores_unknown_uniform:
  assumes "uniforms sh name = None"
  shows "drawImage sh pboIndex uniformValues wd
           = drawImage sh pboIndex (AList.delete name uniformValues) wd
         \<and> (pboIndex < len_pbos \<longrightarrow> (\<exists>wd'. drawImage sh pboIndex uniformValues wd = Inr wd'))"
  using assms by (simp add: drawImage_def set_uniforms_delete Let_def)

theorem drawImage_ignores_unknown_uniform_witness:
  "uniforms small_shader ''speed'' = None
   \<and> map_of (maps caller_world 0) ''speed'' \<noteq> None
   \<and> drawImage small_shader 0 (maps caller_world 0) caller_world
       = drawImage small_shader 0 (AList.delete ''speed'' (maps caller_world 0)) caller_world
   \<and> (\<exists>wd'. drawImage small_shader 0 (maps caller_world 0) caller_world = Inr wd')"
proof -
  have u: "uniforms small_shader ''speed'' = None"
    by (simp add: small_shader_def)
  have "map_of (maps caller_world 0) ''speed'' \<noteq> None"
    by (simp add: caller_world_def)
  moreover note u
  moreover have "0 < len_pbos"
    by (simp add: len_pbos_def)
  moreover note drawImage_ignores_unknown_uniform [OF u, of 0 "maps caller_world 0" caller_world]
  ultimately show ?thesis
    by blast
qed

lemma Image_fits:
  assumes "fits_int sh"
  shows "Shader_Image sh uniformValues wd =
    (let wd1 = (case uniformValues of None \<Rightarrow> snd (make_map wd) | Some r \<Rightarrow> wd);
         r = (case uniformValues of None \<Rightarrow> next_ref wd | Some r \<Rightarrow> r);
         wd2 = wd1\<lparr>maps := (maps wd1)(r := ensure_resolution sh (maps wd1 r))\<rparr>;
         wd3 = drawn_into sh 0 (maps wd2 r) wd2
     in Inr (frame_image sh (buffers wd3 0),
          log_event (GL_GetBufferSubData 0 (int (4 * unat (w sh) * unat (h sh))))
            (gl_BindBuffer 0 wd3)))"
proof -
  have e: "\<And>r wd1. (if map_of (maps wd1 r) ''resolution'' = None
            then map_assign r ''resolution'' (resolution_func sh) wd1 else wd1)
          = wd1\<lparr>maps := (maps wd1)(r := ensure_resolution sh (maps wd1 r))\<rparr>"
    by (simp add: map_assign_def ensure_resolution_def update_absent)
  show ?thesis
    by (cases uniformValues)
      (simp_all add: Shader_Image_def e drawImage_ok len_pbos_def drawn_into_def
        downloadImage_fits [OF assms] Let_def make_map_def)
qed



lemma Image_maps:
  "maps (result_world (Shader_Image sh (Some r) wd)) r = ensure_resolution sh (maps wd r)"
proof -
  have e: "(if map_of (maps wd r) ''resolution'' = None
            then map_assign r ''resolution'' (resolution_func sh) wd else wd)
          = wd\<lparr>maps := (maps wd)(r := ensure_resolution sh (maps wd r))\<rparr>"
    by (simp add: map_assign_def ensure_resolution_def update_absent)
  define wd3 where "wd3 = drawn_into sh 0 (ensure_resolution sh (maps wd r))
      (wd\<lparr>maps := (maps wd)(r := ensure_resolution sh (maps wd r))\<rparr>)"
  have i: "Shader_Image sh (Some r) wd = downloadImage sh 0 wd3"
    by (simp add: Shader_Image_def e drawImage_ok len_pbos_def drawn_into_def wd3_def)
  have m: "maps wd3 r = ensure_resolution sh (maps wd r)"
    by (simp add: wd3_def)
  show ?thesis
  proof (cases "downloadImage sh 0 wd3")
    case (Inl a)
    then obtain p wd' where a: "downloadImage sh 0 wd3 = Inl (p, wd')"
      by (cases a) simp
    from downloadImage_Inl [OF a] show ?thesis
      using a m by (auto simp: i result_world_def)
  next
    case (Inr a)
    then obtain img wd' where a: "downloadImage sh 0 wd3 = Inr (img, wd')"
      by (cases a) simp
    from downloadImage_Inr(1) [OF a] show ?thesis
      using a m by (auto simp: i result_world_def)
  qed
qed

text \<open>
  Claim C10. The table the caller passes is changed in place: after \<open>Image\<close> it has a
  \<open>resolution\<close> entry, the caller's own or else the default one; after any number of
  iterations of \<open>Animate\<close>, however it ends, it has that and the \<open>time\<close> entry of the
  animation clock, whatever \<open>time\<close> entry it had.
\<close>

theorem caller_map_mutated:
  "maps (result_world (Shader_Image sh (Some r) wd)) r = ensure_resolution sh (maps wd r)
   \<and> maps (world_of (Animate (Suc n) sh interval sel (Some r) wd)) r
       = animated sh (next_ref wd) (maps wd r)
   \<and> map_of (ensure_resolution sh m) ''resolution''
       = Some (case map_of m ''resolution'' of None \<Rightarrow> resolution_func sh | Some setValue \<Rightarrow> setValue)
   \<and> map_of (animated sh t m) ''resolution''
       = Some (case map_of m ''resolution'' of None \<Rightarrow> resolution_func sh | Some setValue \<Rightarrow> setValue)
   \<and> map_of (animated sh t m) ''time'' = Some (time_func t)"
  by (simp add: Image_maps Animate_def split_beta Animate_loop_maps new_duration_def
      map_of_animated map_of_ensure_resolution del: Animate_loop.simps split: option.splits)

section \<open>The slots of the ring\<close>

lemma Suc_mod_3: "Suc y mod 3 \<noteq> y mod 3"
  by (simp add: mod_Suc)

lemma slots_differ:
  fixes frame :: "64 word"
  assumes "frame \<noteq> 0"
  shows "unat (frame mod 3) \<noteq> unat ((frame - 1) mod 3)"
proof -
  have "0 < unat frame"
    using assms by (simp add: unat_gt_0)
  then have "unat frame mod 3 \<noteq> (unat frame - 1) mod 3"
    using Suc_mod_3 [of "unat frame - 1"] by simp
  then show ?thesis
    using assms by (simp add: unat_mod unat_minus_one)
qed

lemma not_less_3_nonzero: "\<not> frame < 3 \<Longrightarrow> frame \<noteq> (0 :: 64 word)"
proof
  assume "\<not> frame < 3" and "frame = 0"
  then show False by simp
qed

lemma since_cong: "events wd = events wd0 \<Longrightarrow> since wd wd' = since wd0 wd'"
  by (simp add: since_def)

lemma since_loop:
  assumes "events wd1 = events wd @ es1"
  shows "since wd (world_of (Animate_loop n sh interval uv t frame sel wd1))
         = es1 @ since wd1 (world_of (Animate_loop n sh interval uv t frame sel wd1))"
proof -
  obtain es2 where "events (world_of (Animate_loop n sh interval uv t frame sel wd1)) = events wd1 @ es2"
    using Animate_loop_prefix by blast
  then show ?thesis
    using assms by (simp add: since_def)
qed

lemma draw_events_eq:
  "draw_events sh interval uv t frame wd =
     (let calls = setter_calls sh ((durations wd)(t := durations wd t + interval))
                    (animated sh t (maps wd uv))
      in map GL_Uniform calls @
         [GL_DrawArrays (store_calls calls (uniform_store wd)),
          GL_BindBuffer (unat (frame mod 3)), GL_ReadPixels (unat (frame mod 3))])"
  by (simp add: draw_events_def since_def Let_def)

lemma draw_events_seen [simp]:
  "sent (draw_events sh interval uv t frame wd) = []"
  "readbacks (draw_events sh interval uv t frame wd) = []"
  "transfers (draw_events sh interval uv t frame wd) = [unat (frame mod 3)]"
  "length (drawn (draw_events sh interval uv t frame wd)) = 1"
  "readback_lags ts (draw_events sh interval uv t frame wd) = []"
  by (simp_all add: draw_events_eq Let_def readback_lags_append)

lemma events_drawn_into:
  "events (drawn_into sh (unat (frame mod 3)) (animated sh t (maps wd uv))
             (prepared sh interval uv t wd))
   = events wd @ draw_events sh interval uv t frame wd"
  by (simp add: draw_events_eq Let_def)

lemma Animate_body_events [case_names skip panic blocked cancel send]:
  fixes sh interval uv t frame sel wd
  defines "b \<equiv> unat ((frame - 1) mod 3)"
  defines "rb \<equiv> [GL_BindBuffer b, GL_GetBufferSubData b (sint (w sh * h sh * 4))]"
  obtains
    (skip) wd1 where "frame < 3" "Animate_body sh interval uv t frame sel wd = Next sel wd1"
      "events wd1 = events wd @ draw_events sh interval uv t frame wd"
  | (panic) p wd1 where "\<not> frame < 3" "\<not> fits_int sh"
      "Animate_body sh interval uv t frame sel wd = Stop (Panicked p wd1)"
      "events wd1 = events wd @ draw_events sh interval uv t frame wd
       \<or> events wd1 = events wd @ draw_events sh interval uv t frame wd @ [GL_BindBuffer b]"
  | (blocked) wd1 where "\<not> frame < 3" "case sel of [] \<Rightarrow> True | e # sel' \<Rightarrow> select e = None"
      "Animate_body sh interval uv t frame sel wd = Stop (Blocked wd1)"
      "events wd1 = events wd @ draw_events sh interval uv t frame wd @ rb"
  | (cancel) e sel' wd1 where "\<not> frame < 3" "sel = e # sel'" "select e = Some CaseCancel"
      "Animate_body sh interval uv t frame sel wd = Stop (Returned wd1)"
      "events wd1 = events wd @ draw_events sh interval uv t frame wd @ rb @ [RecvCancel]"
  | (send) img e sel' wd1 where "\<not> frame < 3" "sel = e # sel'" "select e = Some CaseStream"
      "Animate_body sh interval uv t frame sel wd = Next sel' wd1"
      "events wd1 = events wd @ draw_events sh interval uv t frame wd @ rb @ [Send img]"
      "fits_int sh \<Longrightarrow> \<exists>src. img = frame_image sh src"
proof (cases rule: Animate_body_worlds [of frame sh interval uv t sel wd])
  case skip
  then show ?thesis
    using that(1) by (simp add: events_drawn_into del: drawn_into_fields)
next
  case (panic p wd')
  from panic(2) have "events wd' = events wd @ draw_events sh interval uv t frame wd
       \<or> events wd' = events wd @ draw_events sh interval uv t frame wd @ [GL_BindBuffer b]"
    by (auto simp: events_drawn_into b_def simp del: drawn_into_fields)
  then show ?thesis
    using panic that(2) by blast
next
  case blocked
  then show ?thesis
    using that(3) by (simp add: events_drawn_into b_def rb_def del: drawn_into_fields)
next
  case (cancel e sel')
  then show ?thesis
    using that(4) by (simp add: events_drawn_into b_def rb_def del: drawn_into_fields)
next
  case (send img e sel')
  have "\<exists>src. img = frame_image sh src" if "fits_int sh"
    using send(2) downloadImage_fits [OF that, of "unat ((frame - 1) mod 3)"]
    by (auto simp: len_pbos_def)
  with send show ?thesis
    using that(5) by (simp add: events_drawn_into b_def rb_def del: drawn_into_fields)
qed

lemma step_transfers:
  "transfers (since wd (step_world (Animate_body sh interval uv t frame sel wd)))
     = [unat (frame mod 3)]"
  by (cases rule: Animate_body_events [of frame sh interval uv t sel wd])
    (auto simp: since_def)

lemma step_readbacks:
  assumes "fits_int sh"
  shows "readbacks (since wd (step_world (Animate_body sh interval uv t frame sel wd)))
     = (if frame < 3 then [] else [unat ((frame - 1) mod 3)])"
  using assms
  by (cases rule: Animate_body_events [of frame sh interval uv t sel wd])
    (auto simp: since_def)

lemma lag_second:
  assumes "\<not> frame < (3 :: 64 word)"
    and "frame \<noteq> 0 \<longrightarrow> (\<exists>ts'. ts = unat ((frame - 1) mod 3) # ts')"
  shows "lag (unat ((frame - 1) mod 3)) (unat (frame mod 3) # ts) = Some 1"
proof -
  have nz: "frame \<noteq> 0"
    using assms(1) by (rule not_less_3_nonzero)
  with assms(2) obtain ts' where "ts = unat ((frame - 1) mod 3) # ts'"
    by blast
  then show ?thesis
    using slots_differ [OF nz] by simp
qed

lemma Animate_loop_lags:
  assumes "frame \<noteq> 0 \<longrightarrow> (\<exists>ts'. ts = unat ((frame - 1) mod 3) # ts')"
  shows "readback_lags ts (since wd (world_of (Animate_loop n sh interval uv t frame sel wd)))
         = replicate (length (readbacks
             (since wd (world_of (Animate_loop n sh interval uv t frame sel wd))))) (Some 1)"
  using assms
proof (induction n arbitrary: frame sel wd ts)
  case 0
  show ?case by simp
next
  case (Suc n)
  have next_ok: "frame + 1 \<noteq> 0 \<longrightarrow>
      (\<exists>ts'. unat (frame mod 3) # ts = unat ((frame + 1 - 1) mod 3) # ts')"
    by simp
  show ?case
  proof (cases rule: Animate_body_events [of frame sh interval uv t sel wd])
    case (skip wd1)
    show ?thesis
      using Suc.IH [OF next_ok, of wd1 sel] skip
      by (simp add: since_loop [OF skip(3)] readback_lags_append)
  next
    case (panic p wd1)
    then show ?thesis
      by (auto simp: since_def readback_lags_append)
  next
    case (blocked wd1)
    then show ?thesis
      using lag_second [OF blocked(1) Suc.prems]
      by (simp add: since_def readback_lags_append)
  next
    case (cancel e sel' wd1)
    then show ?thesis
      using lag_second [OF cancel(1) Suc.prems]
      by (simp add: since_def readback_lags_append)
  next
    case (send img e sel' wd1)
    show ?thesis
      using Suc.IH [OF next_ok, of wd1 sel'] send lag_second [OF send(1) Suc.prems]
      by (simp add: since_loop [OF send(5)] readback_lags_append)
  qed
qed

lemma Animate_since:
  "since wd (world_of (Animate n sh interval sel uniformValues wd)) =
     (let wd1 = (case uniformValues of None \<Rightarrow> snd (make_map wd) | Some r \<Rightarrow> wd);
          uv = (case uniformValues of None \<Rightarrow> next_ref wd | Some r \<Rightarrow> r);
          wd2 = snd (new_duration wd1)
      in since wd2 (world_of (Animate_loop n sh interval uv (next_ref wd1) 0 sel wd2)))"
proof (cases uniformValues)
  case None
  have "since wd (world_of (Animate n sh interval sel uniformValues wd))
        = since (snd (new_duration (snd (make_map wd))))
            (world_of (Animate n sh interval sel uniformValues wd))"
    by (rule since_cong) simp
  then show ?thesis
    by (simp add: None Animate_def split_beta Let_def del: Animate_loop.simps)
next
  case (Some r)
  have "since wd (world_of (Animate n sh interval sel uniformValues wd))
        = since (snd (new_duration wd)) (world_of (Animate n sh interval sel uniformValues wd))"
    by (rule since_cong) simp
  then show ?thesis
    by (simp add: Some Animate_def split_beta Let_def del: Animate_loop.simps)
qed



section \<open>The first iterations\<close>

lemma unat_succ:
  fixes frame :: "64 word"
  assumes "unat frame + 1 < 2 ^ 64"
  shows "unat (frame + 1) = Suc (unat frame)"
proof -
  have "unat frame + unat (1 :: 64 word) < 2 ^ LENGTH(64)"
    using assms by simp
  then have "unat (frame + 1) = unat frame + unat (1 :: 64 word)"
    by (simp only: unat_add_lem)
  then show ?thesis by simp
qed

lemma less_3_iff: "frame < (3 :: 64 word) \<longleftrightarrow> unat frame < 3"
  by (simp add: word_less_nat_alt)

lemma Animate_loop_add:
  "Animate_loop (a + b) sh interval uv t frame sel wd =
     (case Animate_loop a sh interval uv t frame sel wd of
        Running frame' sel' wd' \<Rightarrow> Animate_loop b sh interval uv t frame' sel' wd'
      | r \<Rightarrow> r)"
proof (induction a arbitrary: frame sel wd)
  case 0
  show ?case by simp
next
  case (Suc a)
  show ?case
    by (cases rule: Animate_body_events [of frame sh interval uv t sel wd]) (simp_all add: Suc)
qed

lemma Animate_loop_skips:
  assumes "unat frame + n \<le> 3"
  shows "\<exists>wd'. Animate_loop n sh interval uv t frame sel wd = Running (frame + of_nat n) sel wd'
           \<and> (\<exists>es. events wd' = events wd @ es \<and> readbacks es = [] \<and> sent es = []
                 \<and> length (drawn es) = n)"
  using assms
proof (induction n arbitrary: frame wd)
  case 0
  show ?case by simp
next
  case (Suc n)
  then have lt: "frame < 3"
    by (simp add: less_3_iff)
  have "unat frame + 1 < 2 ^ 64"
    using Suc.prems by simp
  then have u: "unat (frame + 1) + n \<le> 3"
    using Suc.prems by (simp add: unat_succ)
  show ?case
  proof (cases rule: Animate_body_events [of frame sh interval uv t sel wd])
    case (skip wd1)
    from Suc.IH [OF u, of wd1] obtain wd' es
      where "Animate_loop n sh interval uv t (frame + 1) sel wd1
               = Running (frame + 1 + of_nat n) sel wd'"
        and "events wd' = events wd1 @ es" "readbacks es = []" "sent es = []"
        "length (drawn es) = n"
      by blast
    with skip show ?thesis
      by (simp add: add.assoc)
  qed (use lt in simp_all)
qed

lemma Animate_start:
  "Animate n sh interval sel uniformValues wd =
     (let wd1 = (case uniformValues of None \<Rightarrow> snd (make_map wd) | Some r \<Rightarrow> wd);
          uv = (case uniformValues of None \<Rightarrow> next_ref wd | Some r \<Rightarrow> r);
          wd2 = snd (new_duration wd1)
      in Animate_loop n sh interval uv (next_ref wd1) 0 sel wd2)"
  by (cases uniformValues) (simp_all add: Animate_def split_beta Let_def del: Animate_loop.simps)

lemma Animate_skips:
  assumes "n \<le> 3"
  shows "\<exists>wd'. Animate n sh interval sel uniformValues wd = Running (of_nat n) sel wd'
           \<and> readbacks (since wd wd') = [] \<and> sent (since wd wd') = []
           \<and> length (drawn (since wd wd')) = n"
proof -
  define wd1 where "wd1 = (case uniformValues of None \<Rightarrow> snd (make_map wd) | Some r \<Rightarrow> wd)"
  define uv where "uv = (case uniformValues of None \<Rightarrow> next_ref wd | Some r \<Rightarrow> r)"
  define wd2 where "wd2 = snd (new_duration wd1)"
  have e: "events wd2 = events wd"
    by (cases uniformValues) (simp_all add: wd2_def wd1_def)
  have "unat (0 :: 64 word) + n \<le> 3"
    using assms by simp
  from Animate_loop_skips [OF this, of sh interval uv "next_ref wd1" sel wd2]
  obtain wd' es where "Animate_loop n sh interval uv (next_ref wd1) 0 sel wd2
        = Running (of_nat n) sel wd'"
    and "events wd' = events wd2 @ es" "readbacks es = []" "sent es = []" "length (drawn es) = n"
    by auto
  then show ?thesis
    by (simp add: Animate_start Let_def wd1_def [symmetric] uv_def [symmetric]
        wd2_def [symmetric] e since_def del: Animate_loop.simps)
qed

lemma Animate_after_three:
  "\<exists>wd3 es3 uv t. events wd3 = events wd @ es3 \<and> readbacks es3 = [] \<and> sent es3 = []
      \<and> length (drawn es3) = 3
      \<and> (\<forall>k. Animate (3 + k) sh interval sel uniformValues wd
                = Animate_loop k sh interval uv t 3 sel wd3)"
proof -
  define wd1 where "wd1 = (case uniformValues of None \<Rightarrow> snd (make_map wd) | Some r \<Rightarrow> wd)"
  define uv where "uv = (case uniformValues of None \<Rightarrow> next_ref wd | Some r \<Rightarrow> r)"
  define wd2 where "wd2 = snd (new_duration wd1)"
  have e: "events wd2 = events wd"
    by (cases uniformValues) (simp_all add: wd2_def wd1_def)
  have "unat (0 :: 64 word) + 3 \<le> 3"
    by simp
  from Animate_loop_skips [OF this, of sh interval uv "next_ref wd1" sel wd2]
  obtain wd3 es3 where r: "Animate_loop 3 sh interval uv (next_ref wd1) 0 sel wd2
        = Running 3 sel wd3"
    and es: "events wd3 = events wd2 @ es3" "readbacks es3 = []" "sent es3 = []"
      "length (drawn es3) = 3"
    by auto
  have "Animate (3 + k) sh interval sel uniformValues wd
          = Animate_loop k sh interval uv (next_ref wd1) 3 sel wd3" for k
    by (simp add: Animate_start Let_def wd1_def [symmetric] uv_def [symmetric]
        wd2_def [symmetric] Animate_loop_add r del: Animate_loop.simps)
  with es e show ?thesis
    by auto
qed

lemma world_of_one:
  "world_of (Animate_loop (Suc 0) sh interval uv t frame sel wd)
     = step_world (Animate_body sh interval uv t frame sel wd)"
  by (cases rule: Animate_body_events [of frame sh interval uv t sel wd]) simp_all

lemma no_send_before [simp]: "sent es = [] \<Longrightarrow> before_first_send es = es"
  by (induction es rule: before_first_send.induct) simp_all

lemma Animate_loop_first_send:
  assumes "\<not> frame < 3"
    and "sent (since wd (world_of (Animate_loop n sh interval uv t frame sel wd))) \<noteq> []"
  shows "length (drawn (before_first_send
            (since wd (world_of (Animate_loop n sh interval uv t frame sel wd))))) = 1"
proof (cases n)
  case 0
  with assms(2) show ?thesis by simp
next
  case (Suc m)
  show ?thesis
  proof (cases rule: Animate_body_events [of frame sh interval uv t sel wd])
    case (skip wd1)
    with assms(1) show ?thesis by simp
  next
    case (panic p wd1)
    with assms(2) Suc show ?thesis by (auto simp: since_def)
  next
    case (blocked wd1)
    with assms(2) Suc show ?thesis by (simp add: since_def)
  next
    case (cancel e sel' wd1)
    with assms(2) Suc show ?thesis by (simp add: since_def)
  next
    case (send img e sel' wd1)
    then show ?thesis
      by (simp add: Suc since_loop [OF send(5)] before_first_send_append)
  qed
qed

lemma Animate_loop_first_readback:
  assumes "fits_int sh" and "\<not> frame < 3"
  shows "take 1 (readbacks (since wd (world_of (Animate_loop (Suc m) sh interval uv t frame sel wd))))
           = [unat ((frame - 1) mod 3)]"
proof (cases rule: Animate_body_events [of frame sh interval uv t sel wd])
  case (skip wd1)
  with assms(2) show ?thesis by simp
next
  case (panic p wd1)
  with assms(1) show ?thesis by simp
next
  case (blocked wd1)
  then show ?thesis by (simp add: since_def)
next
  case (cancel e sel' wd1)
  then show ?thesis by (simp add: since_def)
next
  case (send img e sel' wd1)
  then show ?thesis
    by (simp add: since_loop [OF send(5)])
qed

lemma Animate_loop_cancel:
  assumes "fits_int sh" and "\<not> frame < 3" and "select e = Some CaseCancel"
  shows "\<exists>wd1 es. Animate_loop (Suc m) sh interval uv t frame (e # sel) wd = Returned wd1
           \<and> events wd1 = events wd @ es @ [RecvCancel] \<and> sent es = []
           \<and> length (drawn es) = 1"
proof (cases rule: Animate_body_events [of frame sh interval uv t "e # sel" wd])
  case (skip wd1)
  with assms(2) show ?thesis by simp
next
  case (panic p wd1)
  with assms(1) show ?thesis by simp
next
  case (blocked wd1)
  with assms(3) show ?thesis by simp
next
  case (cancel e' sel' wd1)
  define es where "es = draw_events sh interval uv t frame wd @
      [GL_BindBuffer (unat ((frame - 1) mod 3)),
       GL_GetBufferSubData (unat ((frame - 1) mod 3)) (sint (w sh * h sh * 4))]"
  have "events wd1 = events wd @ es @ [RecvCancel]"
    using cancel(5) by (simp add: es_def)
  moreover have "sent es = []" "length (drawn es) = 1"
    by (simp_all add: es_def)
  moreover have "Animate_loop (Suc m) sh interval uv t frame (e # sel) wd = Returned wd1"
    using cancel(4) by simp
  ultimately show ?thesis
    by blast
next
  case (send img e' sel' wd1)
  with assms(3) show ?thesis by simp
qed

lemma Animate_loop_send:
  assumes "fits_int sh" and "\<not> frame < 3" and "select e = Some CaseStream"
  shows "\<exists>wd1 es img. Animate_body sh interval uv t frame (e # sel) wd = Next sel wd1
           \<and> events wd1 = events wd @ es @ [Send img] \<and> sent es = []
           \<and> length (drawn es) = 1"
proof (cases rule: Animate_body_events [of frame sh interval uv t "e # sel" wd])
  case (skip wd1)
  with assms(2) show ?thesis by simp
next
  case (panic p wd1)
  with assms(1) show ?thesis by simp
next
  case (blocked wd1)
  with assms(3) show ?thesis by simp
next
  case (cancel e' sel' wd1)
  with assms(3) show ?thesis by simp
next
  case (send img e' sel' wd1)
  define es where "es = draw_events sh interval uv t frame wd @
      [GL_BindBuffer (unat ((frame - 1) mod 3)),
       GL_GetBufferSubData (unat ((frame - 1) mod 3)) (sint (w sh * h sh * 4))]"
  have "events wd1 = events wd @ es @ [Send img]"
    using send(5) by (simp add: es_def)
  moreover have "sent es = []" "length (drawn es) = 1"
    by (simp_all add: es_def)
  moreover have "Animate_body sh interval uv t frame (e # sel) wd = Next sel wd1"
    using send(2,4) by simp
  ultimately show ?thesis
    by blast
qed

lemma three_not_less: "\<not> (3 :: 64 word) < 3"
  by simp

lemma Animate_first_send:
  assumes "sent (since wd (world_of (Animate n sh interval sel uniformValues wd))) \<noteq> []"
  shows "length (drawn (before_first_send
            (since wd (world_of (Animate n sh interval sel uniformValues wd))))) = 4"
proof -
  have "\<not> n \<le> 3"
    using assms Animate_skips [of n sh interval sel uniformValues wd] by auto
  then obtain k where n: "n = 3 + k"
    using le_Suc_ex [of 3 n] by auto
  obtain wd3 es3 uv t where es: "events wd3 = events wd @ es3" "sent es3 = []"
      "length (drawn es3) = 3"
    and a: "Animate (3 + k) sh interval sel uniformValues wd
              = Animate_loop k sh interval uv t 3 sel wd3"
    using Animate_after_three [of wd sh interval sel uniformValues] by blast
  have s: "since wd (world_of (Animate n sh interval sel uniformValues wd))
        = es3 @ since wd3 (world_of (Animate_loop k sh interval uv t 3 sel wd3))"
    by (simp only: n a since_loop [OF es(1)])
  with assms es(2) have "sent (since wd3 (world_of (Animate_loop k sh interval uv t 3 sel wd3))) \<noteq> []"
    by simp
  from Animate_loop_first_send [OF three_not_less this] show ?thesis
    by (simp add: s before_first_send_append es)
qed

lemma Animate_fourth_readback:
  assumes "fits_int sh"
  shows "take 1 (readbacks (since wd (world_of (Animate (4 + m) sh interval sel uniformValues wd))))
           = [2]"
proof -
  obtain wd3 es3 uv t where es: "events wd3 = events wd @ es3" "readbacks es3 = []"
    and a: "Animate (3 + Suc m) sh interval sel uniformValues wd
              = Animate_loop (Suc m) sh interval uv t 3 sel wd3"
    using Animate_after_three [of wd sh interval sel uniformValues] by blast
  have f: "4 + m = 3 + Suc m"
    by simp
  have s: "since wd (world_of (Animate (4 + m) sh interval sel uniformValues wd))
        = es3 @ since wd3 (world_of (Animate_loop (Suc m) sh interval uv t 3 sel wd3))"
    by (simp only: f a since_loop [OF es(1)])
  from Animate_loop_first_readback [OF assms three_not_less, of wd3 m interval uv t sel]
  show ?thesis
    by (simp add: s es del: Animate_loop.simps)
qed

lemma Animate_four:
  "\<exists>wd3 es3 uv t. events wd3 = events wd @ es3 \<and> readbacks es3 = [] \<and> sent es3 = []
      \<and> length (drawn es3) = 3
      \<and> since wd (world_of (Animate 4 sh interval sel uniformValues wd))
          = es3 @ since wd3 (step_world (Animate_body sh interval uv t 3 sel wd3))"
proof -
  obtain wd3 es3 uv t where es: "events wd3 = events wd @ es3" "readbacks es3 = []"
      "sent es3 = []" "length (drawn es3) = 3"
    and a: "Animate (3 + Suc 0) sh interval sel uniformValues wd
              = Animate_loop (Suc 0) sh interval uv t 3 sel wd3"
    using Animate_after_three [of wd sh interval sel uniformValues] by blast
  have f: "4 = 3 + Suc 0"
    by simp
  have "since wd (world_of (Animate 4 sh interval sel uniformValues wd))
        = es3 @ since wd3 (world_of (Animate_loop (Suc 0) sh interval uv t 3 sel wd3))"
    by (simp only: f a since_loop [OF es(1)])
  then have "since wd (world_of (Animate 4 sh interval sel uniformValues wd))
        = es3 @ since wd3 (step_world (Animate_body sh interval uv t 3 sel wd3))"
    by (simp only: world_of_one)
  with es show ?thesis
    by blast
qed

lemma Animate_four_readbacks:
  assumes "fits_int sh"
  shows "readbacks (since wd (world_of (Animate 4 sh interval sel uniformValues wd))) = [2]"
proof -
  obtain wd3 es3 uv t where "readbacks es3 = []"
    and "since wd (world_of (Animate 4 sh interval sel uniformValues wd))
          = es3 @ since wd3 (step_world (Animate_body sh interval uv t 3 sel wd3))"
    using Animate_four [of wd sh interval sel uniformValues] by blast
  then show ?thesis
    by (simp add: step_readbacks [OF assms])
qed

lemma Animate_four_send:
  assumes "fits_int sh" and "select e = Some CaseStream"
  shows "length (sent (since wd (world_of (Animate 4 sh interval (e # sel) uniformValues wd)))) = 1"
proof -
  obtain wd3 es3 uv t where "sent es3 = []"
    and s: "since wd (world_of (Animate 4 sh interval (e # sel) uniformValues wd))
          = es3 @ since wd3 (step_world (Animate_body sh interval uv t 3 (e # sel) wd3))"
    using Animate_four [of wd sh interval "e # sel" uniformValues] by blast
  moreover obtain wd1 es img
    where "Animate_body sh interval uv t 3 (e # sel) wd3 = Next sel wd1"
      and "events wd1 = events wd3 @ es @ [Send img]" "sent es = []"
    using Animate_loop_send [OF assms(1) three_not_less assms(2), of interval uv t sel wd3]
    by blast
  ultimately show ?thesis
    by (simp add: since_def)
qed

lemma Animate_lags:
  "readback_lags [] (since wd (world_of (Animate n sh interval sel uniformValues wd)))
   = replicate (length (readbacks
         (since wd (world_of (Animate n sh interval sel uniformValues wd))))) (Some 1)"
  by (simp add: Animate_since Let_def Animate_loop_lags del: Animate_loop.simps)

lemma Animate_cancel:
  assumes "fits_int sh" and "select e = Some CaseCancel"
  shows "\<exists>wd'. Animate (4 + m) sh interval (e # sel) uniformValues wd = Returned wd'
           \<and> sent (since wd wd') = [] \<and> length (drawn (since wd wd')) = 4
           \<and> last (events wd') = RecvCancel"
proof -
  obtain wd3 es3 uv t where es: "events wd3 = events wd @ es3" "sent es3 = []"
      "length (drawn es3) = 3"
    and a: "Animate (3 + Suc m) sh interval (e # sel) uniformValues wd
              = Animate_loop (Suc m) sh interval uv t 3 (e # sel) wd3"
    using Animate_after_three [of wd sh interval "e # sel" uniformValues] by blast
  obtain wd1 es1 where r: "Animate_loop (Suc m) sh interval uv t 3 (e # sel) wd3 = Returned wd1"
    and es1: "events wd1 = events wd3 @ es1 @ [RecvCancel]" "sent es1 = []"
      "length (drawn es1) = 1"
    using Animate_loop_cancel [OF assms(1) three_not_less assms(2), of m interval uv t sel wd3]
    by blast
  have f: "4 + m = 3 + Suc m"
    by simp
  have "Animate (4 + m) sh interval (e # sel) uniformValues wd = Returned wd1"
    by (simp only: f a r)
  moreover have "sent (since wd wd1) = []" "length (drawn (since wd wd1)) = 4"
    "last (events wd1) = RecvCancel"
    using es es1 by (simp_all add: since_def)
  ultimately show ?thesis
    by blast
qed

text \<open>
  Claim C2, as amended. Every readback of \<open>Animate\<close> reads the slot of the transfer
  requested one iteration earlier: between that request and the readback exactly one
  transfer, into another slot, has been requested, not the two of a full cycle of the
  ring.
\<close>

theorem readback_after_one_transfer:
  "readback_lags [] (since wd (world_of (Animate n sh interval sel uniformValues wd)))
   = replicate (length (readbacks
         (since wd (world_of (Animate n sh interval sel uniformValues wd))))) (Some 1)"
  by (rule Animate_lags)

text \<open>
  Claim C2 as it is stated fails: in the first four iterations on the small surface
  there is one readback, and one transfer only was requested since the transfer into
  the slot it reads, fewer than the \<open>N - 1 = 2\<close> of the claim.
\<close>

theorem readback_after_one_transfer_counterexample:
  "readback_lags [] (since new_world
       (world_of (Animate 4 small_shader Second [deliver] None new_world))) = [Some 1]
   \<and> \<not> len_pbos - 1 \<le> 1"
  by (simp add: Animate_lags Animate_four_readbacks len_pbos_def del: Animate_loop.simps)







section \<open>The images\<close>

lemma unat_times_4:
  fixes a :: "64 word"
  assumes "unat a < 2 ^ 62"
  shows "unat (4 * a) = 4 * unat a"
proof -
  have "unat (4 :: 64 word) = 4"
    by simp
  then have "unat (4 :: 64 word) * unat a < 2 ^ LENGTH(64)"
    using assms by simp
  then have "unat (4 * a) = unat (4 :: 64 word) * unat a"
    by (simp only: unat_mult_lem)
  then show ?thesis by simp
qed

lemma fits_int_width:
  assumes "fits_int sh"
  shows "unat (w sh) < 2 ^ 62"
proof -
  have hpos: "1 \<le> unat (h sh)" and b: "4 * unat (w sh) * unat (h sh) < 2 ^ 63"
    using assms by (simp_all add: fits_int_def)
  have "4 * unat (w sh) * 1 \<le> 4 * unat (w sh) * unat (h sh)"
    using hpos by (intro mult_le_mono2)
  with b have "4 * unat (w sh) < 2 ^ 63"
    by linarith
  then show ?thesis
    by simp
qed

lemma whole_frame_image:
  assumes "fits_int sh"
  shows "whole_frame sh (frame_image sh src)"
  using unat_times_4 [OF fits_int_width [OF assms]]
  by (simp add: whole_frame_def frame_image_def readback_def Let_def)

lemma Animate_loop_whole_frames:
  assumes "fits_int sh"
  shows "\<forall>img \<in> set (sent (since wd (world_of (Animate_loop n sh interval uv t frame sel wd)))).
           whole_frame sh img"
proof (induction n arbitrary: frame sel wd)
  case 0
  show ?case by simp
next
  case (Suc n)
  show ?case
  proof (cases rule: Animate_body_events [of frame sh interval uv t sel wd])
    case (skip wd1)
    then show ?thesis
      using Suc [of wd1 "frame + 1" sel] by (simp add: since_loop [OF skip(3)])
  next
    case (panic p wd1)
    with assms show ?thesis by simp
  next
    case (blocked wd1)
    then show ?thesis by (simp add: since_def)
  next
    case (cancel e sel' wd1)
    then show ?thesis by (simp add: since_def)
  next
    case (send img e sel' wd1)
    from send(6) [OF assms] have "whole_frame sh img"
      using whole_frame_image [OF assms] by auto
    then show ?thesis
      using send Suc [of wd1 "frame + 1" sel'] by (simp add: since_loop [OF send(5)])
  qed
qed

lemma Image_download:
  "Shader_Image sh uniformValues wd =
    downloadImage sh 0
      (let wd1 = (case uniformValues of None \<Rightarrow> snd (make_map wd) | Some r \<Rightarrow> wd);
           r = (case uniformValues of None \<Rightarrow> next_ref wd | Some r \<Rightarrow> r);
           wd2 = wd1\<lparr>maps := (maps wd1)(r := ensure_resolution sh (maps wd1 r))\<rparr>
       in drawn_into sh 0 (maps wd2 r) wd2)"
proof -
  have e: "\<And>r wd1. (if map_of (maps wd1 r) ''resolution'' = None
            then map_assign r ''resolution'' (resolution_func sh) wd1 else wd1)
          = wd1\<lparr>maps := (maps wd1)(r := ensure_resolution sh (maps wd1 r))\<rparr>"
    by (simp add: map_assign_def ensure_resolution_def update_absent)
  show ?thesis
    by (cases uniformValues)
      (simp_all add: Shader_Image_def e drawImage_ok len_pbos_def drawn_into_def Let_def
        make_map_def)
qed

lemma downloadImage_wide:
  "map_sum fst (length \<circ> Pix \<circ> fst) (downloadImage wide_shader 0 wd) = Inr 4"
  by (simp add: downloadImage_def image_NewRGBA_def image_Rect_def Dx_def Dy_def
      wide_shader_def small_shader_def len_pbos_def Let_def gl_GetBufferSubData_def)

text \<open>
  Claim C9, as amended. On a surface whose dimensions are positive and fit, so that no
  conversion between \<open>uint\<close> and \<open>int\<close> wraps, \<open>Image\<close> returns an image of the whole
  surface, and every image \<open>Animate\<close> sends is one: \<open>4 * w * h\<close> bytes in rows of \<open>4 * w\<close>,
  on the rectangle from \<open>(0, 0)\<close> to \<open>(w, h)\<close>.
\<close>

theorem images_are_whole_frames:
  assumes "fits_int sh"
  shows "(\<exists>img wd'. Shader_Image sh uniformValues wd = Inr (img, wd') \<and> whole_frame sh img)
    \<and> (\<forall>img \<in> set (sent (since wd (world_of (Animate n sh interval sel uniformValues wd)))).
         whole_frame sh img)"
proof
  show "\<exists>img wd'. Shader_Image sh uniformValues wd = Inr (img, wd') \<and> whole_frame sh img"
    using whole_frame_image [OF assms]
    by (simp add: Image_download downloadImage_fits [OF assms] len_pbos_def)
  show "\<forall>img \<in> set (sent (since wd (world_of (Animate n sh interval sel uniformValues wd)))).
         whole_frame sh img"
    by (simp add: Animate_since Let_def Animate_loop_whole_frames [OF assms]
        del: Animate_loop.simps)
qed

theorem images_are_whole_frames_witness:
  "fits_int small_shader
   \<and> (\<exists>img wd'. Shader_Image small_shader None new_world = Inr (img, wd')
         \<and> whole_frame small_shader img)
   \<and> length (sent (since new_world
        (world_of (Animate 4 small_shader Second [deliver] None new_world)))) = 1
   \<and> whole_frame small_shader (hd (sent (since new_world
        (world_of (Animate 4 small_shader Second [deliver] None new_world)))))"
proof -
  note t = images_are_whole_frames [OF fits_small, of None new_world 4 Second "[deliver]"]
  have l: "length (sent (since new_world
        (world_of (Animate 4 small_shader Second [deliver] None new_world)))) = 1"
    by (rule Animate_four_send [OF fits_small select_small(1)])
  then have "hd (sent (since new_world
        (world_of (Animate 4 small_shader Second [deliver] None new_world))))
      \<in> set (sent (since new_world
        (world_of (Animate 4 small_shader Second [deliver] None new_world))))"
    by (intro hd_in_set) auto
  with t l fits_small show ?thesis
    by blast
qed

text \<open>
  Claim C9 as it is stated fails: on a surface of width \<open>2^64 - 1\<close> and height 1, both
  positive, \<open>int(sh.w)\<close> is \<open>-1\<close>, \<open>image.Rect\<close> turns the rectangle round, and \<open>Image\<close>
  returns an image of one pixel, four bytes.
\<close>

theorem images_are_whole_frames_counterexample:
  "0 < unat (w wide_shader) \<and> 0 < unat (h wide_shader)
   \<and> map_sum fst (length \<circ> Pix \<circ> fst) (Shader_Image wide_shader None new_world) = Inr 4
   \<and> 4 \<noteq> unat (w wide_shader) * unat (h wide_shader) * 4"
  by (simp add: Image_download downloadImage_wide) (simp add: wide_shader_def small_shader_def)

section \<open>Which frame an image sent shows\<close>

lemma drawn_draw_events:
  "drawn (draw_events sh interval uv t frame wd) =
     [store_calls (setter_calls sh ((durations wd)(t := durations wd t + interval))
        (animated sh t (maps wd uv))) (uniform_store wd)]"
  by (simp add: draw_events_eq Let_def)

lemma Animate_loop_delivers:
  assumes "fits_int sh"
    and "unat frame + n < 2 ^ 64"
    and "\<not> frame < 3 \<longrightarrow> buffers wd (unat ((frame - 1) mod 3)) = prev"
  shows "sent (since wd (world_of (Animate_loop n sh interval uv t frame sel wd))) =
     map (frame_image sh)
       (take (length (sent (since wd (world_of (Animate_loop n sh interval uv t frame sel wd)))))
         (drop (3 - unat frame)
           (prev # map (program sh)
              (drawn (since wd (world_of (Animate_loop n sh interval uv t frame sel wd)))))))"
  using assms(2,3)
proof (induction n arbitrary: frame sel wd prev)
  case 0
  show ?case by simp
next
  case (Suc n)
  let ?us = "store_calls (setter_calls sh ((durations wd)(t := durations wd t + interval))
        (animated sh t (maps wd uv))) (uniform_store wd)"
  let ?wd4 = "drawn_into sh (unat (frame mod 3)) (animated sh t (maps wd uv))
        (prepared sh interval uv t wd)"
  let ?b = "unat ((frame - 1) mod 3)"
  let ?wd5 = "log_event (GL_GetBufferSubData ?b (sint (w sh * h sh * 4))) (gl_BindBuffer ?b ?wd4)"
  have e4: "events ?wd4 = events wd @ draw_events sh interval uv t frame wd"
    by (rule events_drawn_into)
  have u: "unat (frame + 1) = Suc (unat frame)"
    using Suc.prems(1) by (intro unat_succ) simp
  then have n: "unat (frame + 1) + n < 2 ^ 64"
    using Suc.prems(1) by simp
  show ?case
  proof (cases rule: Animate_body_worlds [of frame sh interval uv t sel wd])
    case skip
    have p: "\<not> frame + 1 < 3 \<longrightarrow> buffers ?wd4 (unat ((frame + 1 - 1) mod 3)) = program sh ?us"
      by simp
    have lt: "unat frame < 3"
      using skip(1) by (simp add: less_3_iff)
    then have d: "3 - unat frame = Suc (3 - unat (frame + 1))"
      by (simp add: u)
    have s: "since wd (world_of (Animate_loop (Suc n) sh interval uv t frame sel wd))
           = draw_events sh interval uv t frame wd
               @ since ?wd4 (world_of (Animate_loop n sh interval uv t (frame + 1) sel ?wd4))"
      using skip(2) by (simp add: since_loop [OF e4])
    show ?thesis
      using Suc.IH [OF n p, of sel]
      by (simp only: s d sent_append drawn_append draw_events_seen drawn_draw_events
          append_Nil append_Cons list.map drop_Suc_Cons)
  next
    case (panic p wd')
    with assms(1) show ?thesis by simp
  next
    case blocked
    then show ?thesis by (simp add: since_def)
  next
    case (cancel e sel')
    then show ?thesis by (simp add: since_def)
  next
    case (send img e sel')
    let ?wd1 = "log_event (Send img) ?wd5"
    have nz: "frame \<noteq> 0"
      using send(1) by (rule not_less_3_nonzero)
    have "img = frame_image sh (buffers ?wd4 ?b)"
      using send(2) downloadImage_fits [OF assms(1), of ?b ?wd4] by (simp add: len_pbos_def)
    also have "buffers ?wd4 ?b = prev"
      using Suc.prems(2) send(1) slots_differ [OF nz] by simp
    finally have img: "img = frame_image sh prev" .
    have p: "\<not> frame + 1 < 3 \<longrightarrow> buffers ?wd1 (unat ((frame + 1 - 1) mod 3)) = program sh ?us"
      by simp
    have ge: "3 \<le> unat frame"
      using send(1) by (simp add: less_3_iff)
    then have d: "3 - unat frame = 0" "3 - unat (frame + 1) = 0"
      by (simp_all add: u)
    have e1: "events ?wd1 = events wd @ (draw_events sh interval uv t frame wd @
         [GL_BindBuffer ?b, GL_GetBufferSubData ?b (sint (w sh * h sh * 4)), Send img])"
      by (simp add: e4 del: drawn_into_fields)
    have s: "since wd (world_of (Animate_loop (Suc n) sh interval uv t frame sel wd))
           = (draw_events sh interval uv t frame wd @
               [GL_BindBuffer ?b, GL_GetBufferSubData ?b (sint (w sh * h sh * 4)), Send img])
               @ since ?wd1 (world_of (Animate_loop n sh interval uv t (frame + 1) sel' ?wd1))"
      using send(5) by (simp add: since_loop [OF e1] del: append_assoc)
    have c: "sent (draw_events sh interval uv t frame wd @
               [GL_BindBuffer ?b, GL_GetBufferSubData ?b (sint (w sh * h sh * 4)), Send img]) = [img]"
      "drawn (draw_events sh interval uv t frame wd @
               [GL_BindBuffer ?b, GL_GetBufferSubData ?b (sint (w sh * h sh * 4)), Send img]) = [?us]"
      by (simp_all add: drawn_draw_events)
    define A where "A = draw_events sh interval uv t frame wd @
               [GL_BindBuffer ?b, GL_GetBufferSubData ?b (sint (w sh * h sh * 4)), Send img]"
    define R where "R = since ?wd1 (world_of (Animate_loop n sh interval uv t (frame + 1) sel' ?wd1))"
    have sA: "sent A = [img]" and dA: "drawn A = [?us]"
      using c by (simp_all only: A_def)
    have ih: "sent R = map (frame_image sh)
           (take (length (sent R)) (program sh ?us # map (program sh) (drawn R)))"
      using Suc.IH [OF n p, of sel'] by (simp only: d drop_0 R_def)
    have "sent (A @ R) = map (frame_image sh)
       (take (length (sent (A @ R))) (drop 0 (prev # map (program sh) (drawn (A @ R)))))"
      using ih by (simp add: sA dA img)
    then show ?thesis
      by (simp only: s d A_def R_def)
  qed
qed

lemma nth_map_take_drop:
  assumes "S = map f (take (length S) (drop 2 D))" and "i < length S"
  shows "S ! i = f (D ! (i + 2))"
proof -
  have "length S = length (take (length S) (drop 2 D))"
    using assms(1) by (metis length_map)
  then have l: "length S \<le> length (drop 2 D)"
    by simp
  have "S ! i = map f (take (length S) (drop 2 D)) ! i"
    using assms(1) by simp
  also have "\<dots> = f (take (length S) (drop 2 D) ! i)"
    using assms(2) l by (intro nth_map) simp
  also have "take (length S) (drop 2 D) ! i = drop 2 D ! i"
    using assms(2) by simp
  also have "drop 2 D ! i = D ! (i + 2)"
    using assms(2) l by (simp add: add.commute)
  finally show ?thesis .
qed

lemma Animate_delivers:
  assumes "fits_int sh" and "n < 2 ^ 64"
  shows "sent (since wd (world_of (Animate n sh interval sel uniformValues wd))) =
     map (\<lambda>us. frame_image sh (program sh us))
       (take (length (sent (since wd (world_of (Animate n sh interval sel uniformValues wd)))))
         (drop 2 (drawn (since wd (world_of (Animate n sh interval sel uniformValues wd))))))"
proof -
  define wd1 where "wd1 = (case uniformValues of None \<Rightarrow> snd (make_map wd) | Some r \<Rightarrow> wd)"
  define uv where "uv = (case uniformValues of None \<Rightarrow> next_ref wd | Some r \<Rightarrow> r)"
  define wd2 where "wd2 = snd (new_duration wd1)"
  define R where "R = since wd2 (world_of (Animate_loop n sh interval uv (next_ref wd1) 0 sel wd2))"
  have s: "since wd (world_of (Animate n sh interval sel uniformValues wd)) = R"
    by (simp add: Animate_since Let_def R_def wd2_def wd1_def uv_def del: Animate_loop.simps)
  have "unat (0 :: 64 word) + n < 2 ^ 64"
    using assms(2) by simp
  moreover have "\<not> (0 :: 64 word) < 3 \<longrightarrow> buffers wd2 (unat ((0 - 1 :: 64 word) mod 3)) = []"
    by simp
  ultimately have "sent R = map (frame_image sh)
       (take (length (sent R)) (drop (3 - unat (0 :: 64 word)) ([] # map (program sh) (drawn R))))"
    unfolding R_def by (rule Animate_loop_delivers [OF assms(1)])
  then have "sent R = map (frame_image sh) (take (length (sent R)) (drop 2 (map (program sh) (drawn R))))"
    by (simp add: numeral_3_eq_3 numeral_2_eq_2)
  then have "sent R = map (\<lambda>us. frame_image sh (program sh us)) (take (length (sent R)) (drop 2 (drawn R)))"
    by (simp add: drop_map take_map comp_def)
  then show ?thesis
    by (simp only: s)
qed

lemma Animate_accumulator:
  assumes "Animate f sh interval sel uniformValues wd = Running frame' sel' wd'"
  shows "frame' = of_nat f
    \<and> durations wd' (case uniformValues of None \<Rightarrow> Suc (next_ref wd) | Some r \<Rightarrow> next_ref wd)
        = of_nat f * interval"
proof (cases uniformValues)
  case None
  with assms have "Animate_loop f sh interval (next_ref wd) (Suc (next_ref wd)) 0 sel
      (snd (new_duration (snd (make_map wd)))) = Running frame' sel' wd'"
    by (simp add: Animate_start Let_def del: Animate_loop.simps)
  from Animate_loop_Running [OF this] None show ?thesis
    by simp
next
  case (Some r)
  with assms have "Animate_loop f sh interval r (next_ref wd) 0 sel
      (snd (new_duration wd)) = Running frame' sel' wd'"
    by (simp add: Animate_start Let_def del: Animate_loop.simps)
  from Animate_loop_Running [OF this] Some show ?thesis
    by simp
qed

lemma step_draws:
  "length (drawn (since wd (step_world (Animate_body sh interval uv t frame sel wd)))) = 1"
  by (cases rule: Animate_body_events [of frame sh interval uv t sel wd])
    (auto simp: since_def)

lemma Animate_four_draws:
  "length (drawn (since wd (world_of (Animate 4 sh interval sel uniformValues wd)))) = 4"
proof -
  obtain wd3 es3 uv t where "length (drawn es3) = 3"
    and "since wd (world_of (Animate 4 sh interval sel uniformValues wd))
          = es3 @ since wd3 (step_world (Animate_body sh interval uv t 3 sel wd3))"
    using Animate_four [of wd sh interval sel uniformValues] by blast
  then show ?thesis
    by (simp add: step_draws)
qed

text \<open>
  The uniform state of every draw of the loop: in each iteration the setters are called
  once \<open>t\<close> has been advanced, so that the setter of \<open>time\<close> pushes one interval in the
  first draw, two in the second, and so on.
\<close>

lemma Animate_loop_draw_states:
  "drawn (since wd (world_of (Animate_loop n sh interval uv t frame sel wd))) =
     take (length (drawn (since wd (world_of (Animate_loop n sh interval uv t frame sel wd)))))
       (draw_states sh interval t (animated sh t (maps wd uv)) (durations wd) (uniform_store wd) n)"
proof (induction n arbitrary: frame sel wd)
  case 0
  show ?case by simp
next
  case (Suc n)
  let ?us = "store_calls (setter_calls sh ((durations wd)(t := durations wd t + interval))
        (animated sh t (maps wd uv))) (uniform_store wd)"
  let ?wd4 = "drawn_into sh (unat (frame mod 3)) (animated sh t (maps wd uv))
        (prepared sh interval uv t wd)"
  let ?b = "unat ((frame - 1) mod 3)"
  let ?rb = "[GL_BindBuffer ?b, GL_GetBufferSubData ?b (sint (w sh * h sh * 4))]"
  let ?wd5 = "log_event (GL_GetBufferSubData ?b (sint (w sh * h sh * 4))) (gl_BindBuffer ?b ?wd4)"
  let ?ds = "draw_states sh interval t (animated sh t (maps wd uv))
      ((durations wd)(t := durations wd t + interval)) ?us n"
  have e4: "events ?wd4 = events wd @ draw_events sh interval uv t frame wd"
    by (rule events_drawn_into)
  have ds: "draw_states sh interval t (animated sh t (maps wd uv)) (durations wd)
      (uniform_store wd) (Suc n) = ?us # ?ds"
    by simp
  have f4: "maps ?wd4 uv = animated sh t (maps wd uv)"
    "durations ?wd4 = (durations wd)(t := durations wd t + interval)"
    "uniform_store ?wd4 = ?us"
    by simp_all
  show ?case
  proof (cases rule: Animate_body_worlds [of frame sh interval uv t sel wd])
    case skip
    define R where "R = since ?wd4 (world_of (Animate_loop n sh interval uv t (frame + 1) sel ?wd4))"
    have s: "since wd (world_of (Animate_loop (Suc n) sh interval uv t frame sel wd))
           = draw_events sh interval uv t frame wd @ R"
      using skip(2) by (simp add: since_loop [OF e4] R_def)
    have "drawn R = take (length (drawn R)) ?ds"
      unfolding R_def using Suc [of ?wd4 "frame + 1" sel] by (simp only: f4 animated_idem)
    then have "drawn (draw_events sh interval uv t frame wd @ R)
        = take (length (drawn (draw_events sh interval uv t frame wd @ R))) (?us # ?ds)"
      by (simp add: drawn_draw_events)
    then show ?thesis
      by (simp only: s ds)
  next
    case (panic p wd')
    from panic(2) have "drawn (since wd wd') = [?us]"
      by (auto simp: since_def)
    with panic(4) show ?thesis
      by (simp only: ds) simp
  next
    case blocked
    have "drawn (since wd ?wd5) = [?us]"
      by (simp add: since_def)
    with blocked(3) show ?thesis
      by (simp only: ds) simp
  next
    case (cancel e sel')
    have "drawn (since wd (log_event RecvCancel ?wd5)) = [?us]"
      by (simp add: since_def)
    with cancel(4) show ?thesis
      by (simp only: ds) simp
  next
    case (send img e sel')
    let ?wd1 = "log_event (Send img) ?wd5"
    define R where "R = since ?wd1 (world_of (Animate_loop n sh interval uv t (frame + 1) sel' ?wd1))"
    have e1: "events ?wd1 = events wd @ (draw_events sh interval uv t frame wd @ ?rb @ [Send img])"
      by (simp add: e4 del: drawn_into_fields)
    have s: "since wd (world_of (Animate_loop (Suc n) sh interval uv t frame sel wd))
           = (draw_events sh interval uv t frame wd @ ?rb @ [Send img]) @ R"
      using send(5) by (simp add: since_loop [OF e1] R_def del: append_assoc)
    have f1: "maps ?wd1 uv = animated sh t (maps wd uv)"
      "durations ?wd1 = (durations wd)(t := durations wd t + interval)"
      "uniform_store ?wd1 = ?us"
      by simp_all
    have "drawn R = take (length (drawn R)) ?ds"
      unfolding R_def using Suc [of ?wd1 "frame + 1" sel'] by (simp only: f1 animated_idem)
    then have "drawn ((draw_events sh interval uv t frame wd @ ?rb @ [Send img]) @ R)
        = take (length (drawn ((draw_events sh interval uv t frame wd @ ?rb @ [Send img]) @ R)))
            (?us # ?ds)"
      by (simp add: drawn_draw_events)
    then show ?thesis
      by (simp only: s ds)
  qed
qed

lemma Animate_draw_states:
  "drawn (since wd (world_of (Animate n sh interval sel uniformValues wd))) =
     (let t = (case uniformValues of None \<Rightarrow> Suc (next_ref wd) | Some r \<Rightarrow> next_ref wd)
      in take (length (drawn (since wd (world_of (Animate n sh interval sel uniformValues wd)))))
           (draw_states sh interval t
              (animated sh t (case uniformValues of None \<Rightarrow> [] | Some r \<Rightarrow> maps wd r))
              ((durations wd)(t := 0)) (uniform_store wd) n))"
proof (cases uniformValues)
  case None
  let ?wd2 = "snd (new_duration (snd (make_map wd)))"
  have s: "since wd (world_of (Animate n sh interval sel None wd))
      = since ?wd2 (world_of (Animate_loop n sh interval (next_ref wd) (Suc (next_ref wd)) 0 sel ?wd2))"
    by (simp add: Animate_since Let_def del: Animate_loop.simps)
  have f: "maps ?wd2 (next_ref wd) = []" "durations ?wd2 = (durations wd)(Suc (next_ref wd) := 0)"
    "uniform_store ?wd2 = uniform_store wd"
    by simp_all
  show ?thesis
    unfolding None Let_def option.case s
    using Animate_loop_draw_states [of ?wd2 n sh interval "next_ref wd" "Suc (next_ref wd)" 0 sel]
    by (simp only: f)
next
  case (Some r)
  let ?wd2 = "snd (new_duration wd)"
  have s: "since wd (world_of (Animate n sh interval sel (Some r) wd))
      = since ?wd2 (world_of (Animate_loop n sh interval r (next_ref wd) 0 sel ?wd2))"
    by (simp add: Animate_since Let_def del: Animate_loop.simps)
  have f: "maps ?wd2 r = maps wd r" "durations ?wd2 = (durations wd)(next_ref wd := 0)"
    "uniform_store ?wd2 = uniform_store wd"
    by simp_all
  show ?thesis
    unfolding Some Let_def option.case s
    using Animate_loop_draw_states [of ?wd2 n sh interval r "next_ref wd" 0 sel]
    by (simp only: f)
qed

lemma three_seconds:
  "float32_div (float32_of_int 3000000000) (float32_of_int 1000000000) = 3"
  by code_simp

lemma no_seconds:
  "float32_div (float32_of_int 0) (float32_of_int 1000000000) = 0"
  by code_simp

lemma length_draw_states [simp]: "length (draw_states sh interval t m vars us n) = n"
  by (induction n arbitrary: vars us) simp_all

lemma small_third_draw:
  "(draw_states small_shader Second 1 (animated small_shader 1 []) ((durations new_world)(1 := 0))
      (uniform_store new_world) 4 ! 2) 0 = Some (Uniform1f 0 3)"
  by (simp add: eval_nat_numeral animated_def ensure_resolution_def small_shader_def
      new_world_def time_func_def resolution_func_def Second_def three_seconds)

lemma small_first_image:
  "(drawn (since new_world
       (world_of (Animate 4 small_shader Second [deliver] None new_world))) ! 2) 0
     = Some (Uniform1f 0 3)"
proof -
  have n: "next_ref new_world = 0" "maps new_world = (\<lambda>r. [])"
    by (simp_all add: new_world_def)
  have "drawn (since new_world (world_of (Animate 4 small_shader Second [deliver] None new_world)))
      = take 4 (draw_states small_shader Second 1 (animated small_shader 1 [])
          ((durations new_world)(1 := 0)) (uniform_store new_world) 4)"
    using Animate_draw_states [of new_world 4 small_shader Second "[deliver]" None]
    by (simp only: Animate_four_draws Let_def option.case n One_nat_def)
  also have "\<dots> = draw_states small_shader Second 1 (animated small_shader 1 [])
          ((durations new_world)(1 := 0)) (uniform_store new_world) 4"
    by (rule take_all) (simp only: length_draw_states order_refl)
  finally show ?thesis
    by (simp only: small_third_draw)
qed

lemma store_calls_last:
  "l \<noteq> - 1 \<Longrightarrow>
   store_calls cs us l =
     (if filter (\<lambda>c. location c = l) cs = [] then us l
      else Some (last (filter (\<lambda>c. location c = l) cs)))"
  by (induction cs arbitrary: us) auto

lemma setter_calls_others:
  assumes "\<forall>(name, f) \<in> set m. name \<noteq> k \<longrightarrow>
      (\<forall>u. uniforms sh name = Some u \<longrightarrow> (\<forall>c \<in> set (f vars (Location u)). location c \<noteq> l))"
    and "k \<notin> fst ` set m"
  shows "filter (\<lambda>c. location c = l) (setter_calls sh vars m) = []"
  using assms
proof (induction m)
  case Nil
  show ?case by simp
next
  case (Cons e m)
  obtain a f where e: "e = (a, f)"
    by (cases e)
  from Cons.prems have a: "a \<noteq> k" and m: "k \<notin> fst ` set m"
    by (auto simp: e)
  from Cons.prems(1) have
    "\<forall>(name, f) \<in> set m. name \<noteq> k \<longrightarrow>
      (\<forall>u. uniforms sh name = Some u \<longrightarrow> (\<forall>c \<in> set (f vars (Location u)). location c \<noteq> l))"
    by simp
  from Cons.IH [OF this m]
  have r: "filter (\<lambda>c. location c = l) (setter_calls sh vars m) = []" .
  from Cons.prems(1) a
  have "\<forall>u. uniforms sh a = Some u \<longrightarrow> (\<forall>c \<in> set (f vars (Location u)). location c \<noteq> l)"
    by (simp add: e)
  then have "filter (\<lambda>c. location c = l)
      (case uniforms sh a of Some u \<Rightarrow> f vars (Location u) | None \<Rightarrow> []) = []"
    by (cases "uniforms sh a") (auto simp: filter_empty_conv)
  with r show ?case
    by (simp add: e)
qed

lemma setter_calls_update:
  assumes "distinct (map fst m)" and "uniforms sh k = Some u"
    and "\<forall>(name, f) \<in> set m. name \<noteq> k \<longrightarrow>
      (\<forall>u. uniforms sh name = Some u \<longrightarrow> (\<forall>c \<in> set (f vars (Location u)). location c \<noteq> l))"
  shows "filter (\<lambda>c. location c = l) (setter_calls sh vars (AList.update k g m))
       = filter (\<lambda>c. location c = l) (g vars (Location u))"
  using assms(1,3)
proof (induction m)
  case Nil
  show ?case
    by (simp add: assms(2))
next
  case (Cons e m)
  obtain a f where e: "e = (a, f)"
    by (cases e)
  from Cons.prems(2) have o:
    "\<forall>(name, f) \<in> set m. name \<noteq> k \<longrightarrow>
      (\<forall>u. uniforms sh name = Some u \<longrightarrow> (\<forall>c \<in> set (f vars (Location u)). location c \<noteq> l))"
    by simp
  from Cons.prems(1) have d: "distinct (map fst m)" and n: "a \<notin> fst ` set m"
    by (simp_all add: e)
  show ?case
  proof (cases "a = k")
    case True
    with n have "k \<notin> fst ` set m"
      by simp
    from setter_calls_others [OF o this] True show ?thesis
      by (simp add: e assms(2))
  next
    case False
    with Cons.prems(2)
    have "\<forall>u. uniforms sh a = Some u \<longrightarrow> (\<forall>c \<in> set (f vars (Location u)). location c \<noteq> l)"
      by (simp add: e)
    then have "filter (\<lambda>c. location c = l)
        (case uniforms sh a of Some u \<Rightarrow> f vars (Location u) | None \<Rightarrow> []) = []"
      by (cases "uniforms sh a") (auto simp: filter_empty_conv)
    with Cons.IH [OF d o] False show ?thesis
      by (simp add: e)
  qed
qed

lemma draw_states_nth:
  "i < n \<Longrightarrow>
   \<exists>us'. draw_states sh interval t m vars us n ! i
     = store_calls (setter_calls sh (vars(t := vars t + of_nat (Suc i) * interval)) m) us'"
proof (induction n arbitrary: vars us i)
  case 0
  then show ?case by simp
next
  case (Suc n)
  show ?case
  proof (cases i)
    case 0
    have "draw_states sh interval t m vars us (Suc n) ! 0
        = store_calls (setter_calls sh (vars(t := vars t + of_nat (Suc 0) * interval)) m) us"
      by simp
    then show ?thesis
      unfolding 0 by blast
  next
    case (Suc j)
    with Suc.prems have "j < n"
      by simp
    have v: "(vars(t := vars t + interval))
               (t := (vars(t := vars t + interval)) t + of_nat (Suc j) * interval)
        = vars(t := vars t + of_nat (Suc (Suc j)) * interval)"
      by (simp add: algebra_simps)
    from Suc.IH [OF \<open>j < n\<close>, of "vars(t := vars t + interval)"
        "store_calls (setter_calls sh (vars(t := vars t + interval)) m) us"]
    obtain us' where
      "draw_states sh interval t m (vars(t := vars t + interval))
          (store_calls (setter_calls sh (vars(t := vars t + interval)) m) us) n ! j
        = store_calls (setter_calls sh
            (vars(t := vars t + of_nat (Suc (Suc j)) * interval)) m) us'"
      unfolding v by blast
    moreover have "draw_states sh interval t m vars us (Suc n) ! Suc j
        = draw_states sh interval t m (vars(t := vars t + interval))
          (store_calls (setter_calls sh (vars(t := vars t + interval)) m) us) n ! j"
      by simp
    ultimately have "draw_states sh interval t m vars us (Suc n) ! Suc j
        = store_calls (setter_calls sh
            (vars(t := vars t + of_nat (Suc (Suc j)) * interval)) m) us'"
      by (simp only:)
    then show ?thesis
      unfolding Suc by blast
  qed
qed

lemma ensure_resolution_distinct:
  "distinct (map fst m) \<Longrightarrow> distinct (map fst (ensure_resolution sh m))"
  by (auto simp: ensure_resolution_def map_of_eq_None_iff)

lemma time_draw_state:
  assumes "uniforms sh ''time'' = Some u" and "Location u \<noteq> - 1"
    and "sole_time_writer sh (Location u) m" and "i < n"
  shows "(draw_states sh interval t (animated sh t m) vars us n ! i) (Location u)
       = Some (Uniform1f (Location u)
           (float32_div (float32_of_int (sint (vars t + of_nat (Suc i) * interval)))
              (float32_of_int (sint Second))))"
proof -
  define V where "V = vars(t := vars t + of_nat (Suc i) * interval)"
  obtain us' where n: "draw_states sh interval t (animated sh t m) vars us n ! i
      = store_calls (setter_calls sh V (animated sh t m)) us'"
    unfolding V_def using draw_states_nth [OF assms(4)] by blast
  from assms(3) have d: "distinct (map fst (ensure_resolution sh m))"
    by (simp add: sole_time_writer_def ensure_resolution_distinct)
  from assms(3) have o: "\<forall>(name, f) \<in> set (ensure_resolution sh m). name \<noteq> ''time'' \<longrightarrow>
      (\<forall>u'. uniforms sh name = Some u' \<longrightarrow>
         (\<forall>c \<in> set (f V (Location u')). location c \<noteq> Location u))"
    unfolding sole_time_writer_def by blast
  have "filter (\<lambda>c. location c = Location u) (setter_calls sh V (animated sh t m))
      = filter (\<lambda>c. location c = Location u) (time_func t V (Location u))"
    unfolding animated_def by (rule setter_calls_update [OF d assms(1) o])
  also have "\<dots> = [Uniform1f (Location u)
      (float32_div (float32_of_int (sint (V t))) (float32_of_int (sint Second)))]"
    by (simp add: time_func_def)
  finally have "store_calls (setter_calls sh V (animated sh t m)) us' (Location u)
      = Some (Uniform1f (Location u)
          (float32_div (float32_of_int (sint (V t))) (float32_of_int (sint Second))))"
    by (simp add: store_calls_last [OF assms(2)])
  then show ?thesis
    by (simp add: n V_def)
qed

text \<open>
  The uniform state of the draw behind a delivered image, at the location of \<open>time\<close>:
  the draw number \<open>k + 1\<close> is the one of the iteration \<open>k + 1\<close>, in which the setters
  are called once \<open>t\<close> has been advanced for the \<open>k + 2\<close>-th time.
\<close>

lemma Animate_time_uniform:
  assumes "fits_int sh" and "n < 2 ^ 64" and "1 \<le> k"
    and "k \<le> length (sent (since wd (world_of (Animate n sh interval sel uniformValues wd))))"
    and "uniforms sh ''time'' = Some u" and "Location u \<noteq> - 1"
    and "sole_time_writer sh (Location u) (case uniformValues of None \<Rightarrow> [] | Some r \<Rightarrow> maps wd r)"
  shows "(drawn (since wd (world_of (Animate n sh interval sel uniformValues wd))) ! (k + 1))
           (Location u)
       = Some (Uniform1f (Location u)
           (float32_div (float32_of_int (sint (of_nat (k + 2) * interval)))
              (float32_of_int (sint Second))))"
proof -
  define S where "S = sent (since wd (world_of (Animate n sh interval sel uniformValues wd)))"
  define D where "D = drawn (since wd (world_of (Animate n sh interval sel uniformValues wd)))"
  define t where "t = (case uniformValues of None \<Rightarrow> Suc (next_ref wd) | Some r \<Rightarrow> next_ref wd)"
  define m where "m = (case uniformValues of None \<Rightarrow> [] | Some r \<Rightarrow> maps wd r)"
  define X where "X = draw_states sh interval t (animated sh t m) ((durations wd)(t := 0))
      (uniform_store wd) n"
  have "S = map (\<lambda>us. frame_image sh (program sh us)) (take (length S) (drop 2 D))"
    unfolding S_def D_def by (rule Animate_delivers [OF assms(1,2)])
  then have "length S = length (take (length S) (drop 2 D))"
    by (metis length_map)
  then have "length S \<le> length D - 2"
    by simp
  with assms(3,4) have kD: "k + 1 < length D"
    by (simp add: S_def)
  have DX: "D = take (length D) X"
    unfolding D_def X_def t_def m_def
    using Animate_draw_states [of wd n sh interval sel uniformValues]
    by (simp only: Let_def)
  have lX: "length X = n"
    by (simp add: X_def)
  have "length D = length (take (length D) X)"
    by (rule arg_cong [where f = length]) (rule DX)
  then have "length D = min (length D) (length X)"
    by (simp only: length_take)
  with lX have "length D \<le> n"
    by simp
  with kD have kn: "k + 1 < n"
    by simp
  have "D ! (k + 1) = take (length D) X ! (k + 1)"
    using DX by simp
  also have "\<dots> = X ! (k + 1)"
    using kD by simp
  finally have "(D ! (k + 1)) (Location u) = (X ! (k + 1)) (Location u)"
    by simp
  also have "\<dots> = Some (Uniform1f (Location u)
      (float32_div (float32_of_int (sint (((durations wd)(t := 0)) t
          + of_nat (Suc (k + 1)) * interval)))
        (float32_of_int (sint Second))))"
    unfolding X_def
    using assms(7) by (intro time_draw_state [OF assms(5,6) _ kn]) (simp add: m_def)
  also have "((durations wd)(t := 0)) t + of_nat (Suc (k + 1)) * interval
      = of_nat (k + 2) * interval"
    by simp
  finally show ?thesis
    by (simp only: D_def)
qed




end
